theory Spec2Isabelle
  imports Main "HOL-Library.Product_Lexorder" "HOL-Library.List_Lexorder" "HOL-Library.Char_ord"
begin

section \<open>Library functions used by update\_function\_docs.go\<close>

subsection \<open>Package strings\<close>

text \<open>Contents, tags and branch names are byte strings (\<^typ>\<open>char list\<close>).\<close>

definition HasPrefix :: "string \<Rightarrow> string \<Rightarrow> bool" where
  "HasPrefix s p = (take (length p) s = p)"

text \<open>\<^verbatim>\<open>strings.Contains(s, substr)\<close>: \<open>substr\<close> occurs at some offset of \<open>s\<close>.\<close>

fun Contains :: "string \<Rightarrow> string \<Rightarrow> bool" where
  "Contains [] sub = (sub = [])"
| "Contains (c # cs) sub = (HasPrefix (c # cs) sub \<or> Contains cs sub)"

text \<open>\<^verbatim>\<open>strings.Split(s, sep)\<close> for a one-byte separator: always at least one segment,
  empty segments are kept.\<close>

fun Split :: "string \<Rightarrow> char \<Rightarrow> string list" where
  "Split [] sep = [[]]"
| "Split (c # cs) sep =
     (if c = sep then [] # Split cs sep
      else (case Split cs sep of [] \<Rightarrow> [[c]] | seg # segs \<Rightarrow> (c # seg) # segs))"

text \<open>\<^verbatim>\<open>strings.Join(elems, sep)\<close>.\<close>

fun Join :: "string list \<Rightarrow> string \<Rightarrow> string" where
  "Join [] sep = []"
| "Join [e] sep = e"
| "Join (e # es) sep = e @ sep @ Join es sep"

subsection \<open>Package regexp\<close>

text \<open>
  The fragment of Go's regular expressions that the patterns of the program use:
  literals, the classes \<^verbatim>\<open>\d\<close>, \<^verbatim>\<open>[-\w]\<close>, \<^verbatim>\<open>\s\<close> and \<^verbatim>\<open>.\<close> under a greedy \<^verbatim>\<open>*\<close> or
  \<^verbatim>\<open>+\<close>, concatenation, alternation and capturing groups.
\<close>

datatype cclass = Digit | WordOrHyphen | Space | AnyChar

fun in_class :: "cclass \<Rightarrow> char \<Rightarrow> bool" where
  "in_class Digit c = (c \<in> set ''0123456789'')"
| "in_class WordOrHyphen c =
     (c \<in> set ''-0123456789ABCDEFGHIJKLMNOPQRSTUVWXYZ_abcdefghijklmnopqrstuvwxyz'')"
| "in_class Space c = (c \<in> set [CHR 0x09, CHR 0x0A, CHR 0x0C, CHR 0x0D, CHR '' ''])"
| "in_class AnyChar c = (c \<noteq> CHR 0x0A)"

datatype regex =
    Lit string
  | Star cclass
  | Plus cclass
  | Cat regex regex
  | Alt regex regex
  | Grp regex

fun Seq :: "regex list \<Rightarrow> regex" where
  "Seq [] = Lit []"
| "Seq [r] = r"
| "Seq (r # rs) = Cat r (Seq rs)"

fun ngroups :: "regex \<Rightarrow> nat" where
  "ngroups (Lit l) = 0"
| "ngroups (Star k) = 0"
| "ngroups (Plus k) = 0"
| "ngroups (Cat r1 r2) = ngroups r1 + ngroups r2"
| "ngroups (Alt r1 r2) = ngroups r1 + ngroups r2"
| "ngroups (Grp r) = Suc (ngroups r)"

text \<open>The remainders a greedy repetition of a class can leave, the longest run first.\<close>

fun star_rests :: "cclass \<Rightarrow> string \<Rightarrow> string list" where
  "star_rests k [] = [[]]"
| "star_rests k (c # cs) = (if in_class k c then star_rests k cs @ [c # cs] else [c # cs])"

text \<open>
  \<open>rmatch r s\<close> lists the ways \<open>r\<close> matches a prefix of \<open>s\<close>, in the order a
  backtracking matcher tries them (Go's leftmost-first rule: the first alternative and the
  longest repetition come first). Each entry holds the captured groups, numbered by their
  opening parenthesis, and the text left after the match. A group that takes no part in
  the match is recorded as the empty string, which is how Go expands it.
\<close>

fun rmatch :: "regex \<Rightarrow> string \<Rightarrow> (string list \<times> string) list" where
  "rmatch (Lit l) s = (if HasPrefix s l then [([], drop (length l) s)] else [])"
| "rmatch (Star k) s = map (Pair []) (star_rests k s)"
| "rmatch (Plus k) s =
     (case s of [] \<Rightarrow> []
      | c # cs \<Rightarrow> if in_class k c then map (Pair []) (star_rests k cs) else [])"
| "rmatch (Cat r1 r2) s =
     concat (map (\<lambda>(g1, s1). map (\<lambda>(g2, s2). (g1 @ g2, s2)) (rmatch r2 s1)) (rmatch r1 s))"
| "rmatch (Alt r1 r2) s =
     map (\<lambda>(g, s'). (g @ replicate (ngroups r2) [], s')) (rmatch r1 s) @
     map (\<lambda>(g, s'). (replicate (ngroups r1) [] @ g, s')) (rmatch r2 s)"
| "rmatch (Grp r) s = map (\<lambda>(g, s'). (take (length s - length s') s # g, s')) (rmatch r s)"

text \<open>
  The leftmost match of an unanchored search: the text before the match, the matched
  text, the groups and the text after the match.
\<close>

fun find_first :: "regex \<Rightarrow> string \<Rightarrow> (string \<times> string \<times> string list \<times> string) option" where
  "find_first r [] =
     (case rmatch r [] of [] \<Rightarrow> None | (g, s') # _ \<Rightarrow> Some ([], [], g, s'))"
| "find_first r (c # cs) =
     (case rmatch r (c # cs) of
        (g, s') # _ \<Rightarrow> Some ([], take (length (c # cs) - length s') (c # cs), g, s')
      | [] \<Rightarrow> map_option (\<lambda>(pre, m, g, s'). (c # pre, m, g, s')) (find_first r cs))"

text \<open>\<^verbatim>\<open>re.MatchString(s)\<close>: the pattern matches somewhere in \<open>s\<close>.\<close>

definition MatchString :: "regex \<Rightarrow> string \<Rightarrow> bool" where
  "MatchString r s = (find_first r s \<noteq> None)"

text \<open>The texts a pattern matches as a whole; the matcher is compared with it below.\<close>

fun regex_lang :: "regex \<Rightarrow> string set" where
  "regex_lang (Lit l) = {l}"
| "regex_lang (Star k) = {w. \<forall>c \<in> set w. in_class k c}"
| "regex_lang (Plus k) = {w. w \<noteq> [] \<and> (\<forall>c \<in> set w. in_class k c)}"
| "regex_lang (Cat r1 r2) = {u @ v | u v. u \<in> regex_lang r1 \<and> v \<in> regex_lang r2}"
| "regex_lang (Alt r1 r2) = regex_lang r1 \<union> regex_lang r2"
| "regex_lang (Grp r) = regex_lang r"

text \<open>A replacement template: \<^verbatim>\<open>${n}\<close> is \<open>Ref n\<close>, other text is \<open>Txt\<close>.\<close>

datatype tpart = Ref nat | Txt string

fun Expand :: "tpart list \<Rightarrow> string list \<Rightarrow> string" where
  "Expand [] gs = []"
| "Expand (Ref n # t) gs = (if n < length gs then gs ! n else []) @ Expand t gs"
| "Expand (Txt x # t) gs = x @ Expand t gs"

text \<open>
  \<^verbatim>\<open>re.ReplaceAll(src, repl)\<close>: the matches are taken from left to right without overlap,
  each replaced by the expanded template (group 0 is the whole match). As in Go, an empty
  match right after a match is not replaced, and the search moves one byte on after an
  empty match. \<open>after\<close> tells that the text starts where a non-empty match ended.
\<close>

function ReplaceAll_from :: "regex \<Rightarrow> tpart list \<Rightarrow> bool \<Rightarrow> string \<Rightarrow> string" where
  "ReplaceAll_from r t after s =
     (case find_first r s of
        None \<Rightarrow> s
      | Some (pre, m, g, rest) \<Rightarrow>
          pre @ (if m = [] \<and> after \<and> pre = [] then [] else Expand t (m # g)) @
          (if m \<noteq> [] then ReplaceAll_from r t True rest
           else (case rest of [] \<Rightarrow> [] | c # cs \<Rightarrow> c # ReplaceAll_from r t False cs)))"
  by pat_completeness auto

lemma star_rests_suffix: "s' \<in> set (star_rests k s) \<Longrightarrow> \<exists>m. s = m @ s'"
proof (induction s)
  case Nil
  then show ?case by simp
next
  case (Cons c cs)
  then show ?case
    by (auto split: if_splits)
qed

lemma rmatch_suffix: "(g, s') \<in> set (rmatch r s) \<Longrightarrow> \<exists>m. s = m @ s'"
proof (induction r arbitrary: g s s')
  case (Lit l)
  then show ?case
    by (auto simp: HasPrefix_def split: if_splits) (metis append_take_drop_id)
next
  case (Star k)
  then show ?case by (auto dest: star_rests_suffix)
next
  case (Plus k)
  then show ?case
    by (auto split: list.splits if_splits dest!: star_rests_suffix)
next
  case (Cat r1 r2)
  from Cat.prems obtain g1 s1 g2 where
    a: "(g1, s1) \<in> set (rmatch r1 s)" and b: "(g2, s') \<in> set (rmatch r2 s1)"
    by auto
  from Cat.IH(1)[OF a] Cat.IH(2)[OF b] show ?case by (metis append.assoc)
next
  case (Alt r1 r2)
  then show ?case by auto
next
  case (Grp r)
  then show ?case by auto
qed

lemma find_first_decomp:
  "find_first r s = Some (pre, m, g, rest) \<Longrightarrow> s = pre @ m @ rest"
proof (induction s arbitrary: pre)
  case Nil
  show ?case
  proof (cases "rmatch r []")
    case Nil
    with Nil.prems show ?thesis by simp
  next
    case (Cons x xs)
    obtain g' s' where x: "x = (g', s')" by (cases x)
    with Cons have "(g', s') \<in> set (rmatch r [])" by simp
    then have "s' = []" by (blast dest: rmatch_suffix)
    with Cons x Nil.prems show ?thesis by simp
  qed
next
  case (Cons c cs)
  show ?case
  proof (cases "rmatch r (c # cs)")
    case Nil
    with Cons.prems obtain pre' where
      "find_first r cs = Some (pre', m, g, rest)" "pre = c # pre'"
      by (auto split: option.splits)
    with Cons.IH show ?thesis by simp
  next
    case (Cons x xs)
    obtain g' s' where x: "x = (g', s')" by (cases x)
    with Cons have "(g', s') \<in> set (rmatch r (c # cs))" by simp
    then obtain m' where m': "c # cs = m' @ s'" by (blast dest: rmatch_suffix)
    from Cons x Cons.prems have
      "pre = []" "m = take (length (c # cs) - length s') (c # cs)" "rest = s'"
      by auto
    with m' show ?thesis by simp
  qed
qed

termination ReplaceAll_from
proof (relation "measure (\<lambda>(r, t, after, s). length s)")
  show "wf (measure (\<lambda>(r, t, after, s). length s))" by simp
next
  fix r :: regex and t :: "tpart list" and after :: bool and s :: string
    and x2 pre y m ya g rest
  assume "find_first r s = Some x2" "(pre, y) = x2" "(m, ya) = y" "(g, rest) = ya" "m \<noteq> []"
  then have "s = pre @ m @ rest" "m \<noteq> []" by (auto dest: find_first_decomp)
  then show "((r, t, True, rest), r, t, after, s) \<in> measure (\<lambda>(r, t, after, s). length s)"
    by (cases m) auto
next
  fix r :: regex and t :: "tpart list" and after :: bool and s :: string
    and x2 pre y m ya g rest c cs
  assume "find_first r s = Some x2" "(pre, y) = x2" "(m, ya) = y" "(g, rest) = ya"
    "rest = c # cs"
  then have "s = pre @ m @ c # cs" by (auto dest: find_first_decomp)
  then show "((r, t, False, cs), r, t, after, s) \<in> measure (\<lambda>(r, t, after, s). length s)"
    by auto
qed

definition ReplaceAll :: "regex \<Rightarrow> tpart list \<Rightarrow> string \<Rightarrow> string" where
  "ReplaceAll r t src = ReplaceAll_from r t False src"

subsection \<open>Package golang.org/x/mod/semver\<close>

definition isDigit :: "char \<Rightarrow> bool" where
  "isDigit c = (c \<in> set ''0123456789'')"

text \<open>Go compares strings byte by byte; a proper prefix is smaller.\<close>

fun str_less :: "string \<Rightarrow> string \<Rightarrow> bool" where
  "str_less [] [] = False"
| "str_less [] (y # ys) = True"
| "str_less (x # xs) [] = False"
| "str_less (x # xs) (y # ys) = ((of_char x :: nat) < of_char y \<or> (x = y \<and> str_less xs ys))"

record parsed =
  major :: string
  minor :: string
  patch :: string
  short :: string
  prerelease :: string
  build :: string

text \<open>\<^verbatim>\<open>parseInt\<close>: a run of digits without a leading zero, and the rest of the text.\<close>

definition parseInt :: "string \<Rightarrow> (string \<times> string) option" where
  "parseInt v =
     (case v of [] \<Rightarrow> None
      | c # _ \<Rightarrow>
          if \<not> isDigit c then None
          else if c = CHR ''0'' \<and> length (takeWhile isDigit v) \<noteq> 1 then None
          else Some (takeWhile isDigit v, dropWhile isDigit v))"

definition isIdentChar :: "char \<Rightarrow> bool" where
  "isIdentChar c =
     (c \<in> set ''ABCDEFGHIJKLMNOPQRSTUVWXYZabcdefghijklmnopqrstuvwxyz0123456789-'')"

definition isNum :: "string \<Rightarrow> bool" where
  "isNum v = list_all isDigit v"

definition isBadNum :: "string \<Rightarrow> bool" where
  "isBadNum v = (list_all isDigit v \<and> length v > 1 \<and> hd v = CHR ''0'')"

text \<open>
  \<^verbatim>\<open>parsePrerelease\<close>, for a text that starts with \<^verbatim>\<open>-\<close>: the identifiers up to the
  first \<^verbatim>\<open>+\<close>, separated by dots, each non-empty and no number with a leading zero.
\<close>

definition parsePrerelease :: "string \<Rightarrow> (string \<times> string) option" where
  "parsePrerelease v =
     (let body = takeWhile (\<lambda>c. c \<noteq> CHR ''+'') (tl v);
          rest = dropWhile (\<lambda>c. c \<noteq> CHR ''+'') (tl v)
      in if list_all (\<lambda>c. isIdentChar c \<or> c = CHR ''.'') body \<and>
            list_all (\<lambda>d. d \<noteq> [] \<and> \<not> isBadNum d) (Split body CHR ''.'')
         then Some (hd v # body, rest) else None)"

text \<open>\<^verbatim>\<open>parseBuild\<close>, for a text that starts with \<^verbatim>\<open>+\<close>: non-empty identifiers to the end.\<close>

definition parseBuild :: "string \<Rightarrow> (string \<times> string) option" where
  "parseBuild v =
     (if list_all (\<lambda>c. isIdentChar c \<or> c = CHR ''.'') (tl v) \<and>
         list_all (\<lambda>d. d \<noteq> []) (Split (tl v) CHR ''.'')
      then Some (v, []) else None)"

text \<open>The tail of \<^verbatim>\<open>parse\<close>, after the patch number: prerelease, build, end of text.\<close>

definition parseTail :: "string \<Rightarrow> string \<Rightarrow> string \<Rightarrow> string \<Rightarrow> parsed option" where
  "parseTail ma mi pa v =
     (case (if v \<noteq> [] \<and> hd v = CHR ''-'' then parsePrerelease v else Some ([], v)) of
        None \<Rightarrow> None
      | Some (pre, v') \<Rightarrow>
          (case (if v' \<noteq> [] \<and> hd v' = CHR ''+'' then parseBuild v' else Some ([], v')) of
             None \<Rightarrow> None
           | Some (bld, v'') \<Rightarrow>
               if v'' \<noteq> [] then None
               else Some \<lparr>major = ma, minor = mi, patch = pa, short = [],
                          prerelease = pre, build = bld\<rparr>))"

definition parse :: "string \<Rightarrow> parsed option" where
  "parse v =
     (case v of [] \<Rightarrow> None
      | c # v1 \<Rightarrow>
        if c \<noteq> CHR ''v'' then None
        else (case parseInt v1 of None \<Rightarrow> None
          | Some (ma, v2) \<Rightarrow>
            (case v2 of
               [] \<Rightarrow> Some \<lparr>major = ma, minor = ''0'', patch = ''0'', short = ''.0.0'',
                            prerelease = [], build = []\<rparr>
             | d # v3 \<Rightarrow>
               if d \<noteq> CHR ''.'' then None
               else (case parseInt v3 of None \<Rightarrow> None
                 | Some (mi, v4) \<Rightarrow>
                   (case v4 of
                      [] \<Rightarrow> Some \<lparr>major = ma, minor = mi, patch = ''0'', short = ''.0'',
                                   prerelease = [], build = []\<rparr>
                    | e # v5 \<Rightarrow>
                      if e \<noteq> CHR ''.'' then None
                      else (case parseInt v5 of None \<Rightarrow> None
                        | Some (pa, v6) \<Rightarrow> parseTail ma mi pa v6))))))"

definition compareInt :: "string \<Rightarrow> string \<Rightarrow> int" where
  "compareInt x y =
     (if x = y then 0
      else if length x < length y then -1
      else if length x > length y then 1
      else if str_less x y then -1 else 1)"

text \<open>
  The loop of \<^verbatim>\<open>comparePrerelease\<close> over the identifiers of both sides; the side that
  runs out first is the smaller.
\<close>

fun compareIdents :: "string list \<Rightarrow> string list \<Rightarrow> int" where
  "compareIdents [] ys = -1"
| "compareIdents (dx # xs) [] = 1"
| "compareIdents (dx # xs) (dy # ys) =
     (if dx \<noteq> dy then
        (if isNum dx \<noteq> isNum dy then (if isNum dx then -1 else 1)
         else if isNum dx \<and> length dx < length dy then -1
         else if isNum dx \<and> length dx > length dy then 1
         else if str_less dx dy then -1 else 1)
      else compareIdents xs ys)"

definition comparePrerelease :: "string \<Rightarrow> string \<Rightarrow> int" where
  "comparePrerelease x y =
     (if x = y then 0
      else if x = [] then 1
      else if y = [] then -1
      else compareIdents (Split (tl x) CHR ''.'') (Split (tl y) CHR ''.''))"

text \<open>\<^verbatim>\<open>semver.Compare(v, w)\<close>: an invalid version is below every valid one.\<close>

definition Compare :: "string \<Rightarrow> string \<Rightarrow> int" where
  "Compare v w =
     (case (parse v, parse w) of
        (None, None) \<Rightarrow> 0
      | (None, Some pw) \<Rightarrow> -1
      | (Some pv, None) \<Rightarrow> 1
      | (Some pv, Some pw) \<Rightarrow>
          if compareInt (major pv) (major pw) \<noteq> 0 then compareInt (major pv) (major pw)
          else if compareInt (minor pv) (minor pw) \<noteq> 0 then compareInt (minor pv) (minor pw)
          else if compareInt (patch pv) (patch pw) \<noteq> 0 then compareInt (patch pv) (patch pw)
          else comparePrerelease (prerelease pv) (prerelease pw))"

text \<open>\<^verbatim>\<open>semver.IsValid(v)\<close>: \<^verbatim>\<open>parse\<close> accepts the version.\<close>

definition IsValid :: "string \<Rightarrow> bool" where
  "IsValid v = (parse v \<noteq> None)"

text \<open>
  The precedence of a version as a value, for comparison with \<open>Compare\<close>. The value of a
  digit string, and the digit strings \<^verbatim>\<open>parseInt\<close> accepts.
\<close>

fun decimal :: "string \<Rightarrow> nat" where
  "decimal [] = 0"
| "decimal (c # cs) = (of_char c - 48) * 10 ^ length cs + decimal cs"

definition canonical :: "string \<Rightarrow> bool" where
  "canonical x = (x \<noteq> [] \<and> list_all isDigit x \<and> (length x = 1 \<or> hd x \<noteq> CHR ''0''))"

text \<open>
  An identifier of a prerelease: a number counts by its value and is below every
  identifier that is not a number; the others are ordered as byte strings.
\<close>

definition identKey :: "string \<Rightarrow> bool \<times> nat \<times> string" where
  "identKey d = (if isNum d then (False, decimal d, []) else (True, 0, d))"

text \<open>
  A prerelease part: none is above any, and two are ordered by their identifiers from the
  left, a proper prefix below its extensions.
\<close>

definition prereleaseKey :: "string \<Rightarrow> bool \<times> (bool \<times> nat \<times> string) list" where
  "prereleaseKey pre = (pre = [], map identKey (Split (tl pre) CHR ''.''))"

text \<open>
  A version: major, minor and patch as numbers, then the prerelease part, ordered
  lexicographically. The build part does not count.
\<close>

definition precedence ::
  "string \<Rightarrow> nat \<times> nat \<times> nat \<times> bool \<times> (bool \<times> nat \<times> string) list" where
  "precedence v =
     (case parse v of None \<Rightarrow> (0, 0, 0, False, [])
      | Some pv \<Rightarrow> (decimal (major pv), decimal (minor pv), decimal (patch pv),
                    prereleaseKey (prerelease pv)))"

text \<open>The prerelease parts \<^verbatim>\<open>parse\<close> lets through.\<close>

definition wfPre :: "string \<Rightarrow> bool" where
  "wfPre p = (p = [] \<or> (hd p = CHR ''-'' \<and>
     list_all (\<lambda>d. d \<noteq> [] \<and> \<not> isBadNum d) (Split (tl p) CHR ''.'')))"

subsection \<open>The file system and the external commands\<close>

datatype error =
    Usage
  | DirtyRepo
  | DocsUpToDate
  | InvalidBranchFormat
  | MissingIdentifier
  | NoMatchingTag
  | FunctionPathNotFound
  | ExpectedFunctionPath
  | ExampleDirMissing string
  | IOError string
  | CmdError string
  | IndexOutOfRange

text \<open>
  The working tree: its directories, the contents of its files, the files that cannot be
  written, and the log of the calls of \<^verbatim>\<open>ioutil.ReadFile\<close> and \<^verbatim>\<open>os.WriteFile\<close>.
\<close>

datatype fileop = ReadOp string | WriteOp string

record filesystem =
  dirs :: "string set"
  files :: "string \<rightharpoonup> string"
  readonly :: "string set"
  oplog :: "fileop list"

definition dirExists :: "filesystem \<Rightarrow> string \<Rightarrow> bool" where
  "dirExists fs path = (path \<in> dirs fs)"

definition ReadFile :: "filesystem \<Rightarrow> string \<Rightarrow> (error + string) \<times> filesystem" where
  "ReadFile fs path =
     (case files fs path of
        None \<Rightarrow> (Inl (IOError path), fs\<lparr>oplog := oplog fs @ [ReadOp path]\<rparr>)
      | Some contents \<Rightarrow> (Inr contents, fs\<lparr>oplog := oplog fs @ [ReadOp path]\<rparr>))"

definition WriteFile :: "filesystem \<Rightarrow> string \<Rightarrow> string \<Rightarrow> error option \<times> filesystem" where
  "WriteFile fs path contents =
     (if path \<in> readonly fs then (Some (IOError path), fs\<lparr>oplog := oplog fs @ [WriteOp path]\<rparr>)
      else (None, fs\<lparr>files := (files fs)(path \<mapsto> contents),
                      oplog := oplog fs @ [WriteOp path]\<rparr>))"

text \<open>
  What the program gets from outside: the results of the git commands, the path of the
  executable, \<^verbatim>\<open>filepath.Dir\<close> and \<^verbatim>\<open>filepath.Join\<close>, and the
  \<^verbatim>\<open>examplePackageURLs\<close> that \<^verbatim>\<open>yaml.Unmarshal\<close> reads from a metadata file.
\<close>

record env =
  isCleanRepo :: "filesystem \<Rightarrow> bool"
  gitFetch :: "error option"
  gitCheckout :: "string \<Rightarrow> filesystem \<Rightarrow> error + filesystem"
  gitTag :: "error + string"
  gitAdd :: "error option"
  gitCommit :: "string \<Rightarrow> error option"
  gitShow :: "error option"
  osExecutable :: "error + string"
  pathDir :: "string \<Rightarrow> string"
  pathJoin :: "string list \<Rightarrow> string"
  yamlExamplePackageURLs :: "string \<Rightarrow> error + string list"

section \<open>The patterns of the program\<close>

text \<open>\<^verbatim>\<open>unstable|v\d*\.\d*\.\d*|v\d*\.\d*\<close>\<close>

definition versionGroup :: regex where
  "versionGroup =
     Alt (Lit ''unstable'')
       (Alt (Seq [Lit ''v'', Star Digit, Lit ''.'', Star Digit, Lit ''.'', Star Digit])
            (Seq [Lit ''v'', Star Digit, Lit ''.'', Star Digit]))"

text \<open>\<^verbatim>\<open>[-\w]*\/(v\d*\.\d*)\<close>\<close>

definition releaseBranchPattern :: regex where
  "releaseBranchPattern =
     Seq [Star WordOrHyphen, Lit ''/'', Grp (Seq [Lit ''v'', Star Digit, Lit ''.'', Star Digit])]"

text \<open>\<^verbatim>\<open>.*(go|ts)\/[-\w]*\/(v\d*\.\d*\.\d*)\<close>\<close>

definition releaseTagPattern :: regex where
  "releaseTagPattern =
     Seq [Star AnyChar, Grp (Alt (Lit ''go'') (Lit ''ts'')), Lit ''/'', Star WordOrHyphen, Lit ''/'',
          Grp (Seq [Lit ''v'', Star Digit, Lit ''.'', Star Digit, Lit ''.'', Star Digit])]"

section \<open>The release descriptor\<close>

record functionExample =
  ExamplePath :: string
  ExampleName :: string

record functionRelease =
  FunctionName :: string
  MinorVersion :: string
  Language :: string
  LatestPatchVersion :: string
  FunctionPath :: string
  Examples :: "functionExample list"
  IsContrib :: bool

definition exampleNames :: "functionExample list \<Rightarrow> string list" where
  "exampleNames fe = map ExampleName fe"

text \<open>The zero value \<^verbatim>\<open>&functionRelease{}\<close>.\<close>

definition zeroRelease :: functionRelease where
  "zeroRelease = \<lparr>FunctionName = [], MinorVersion = [], Language = [], LatestPatchVersion = [],
                   FunctionPath = [], Examples = [], IsContrib = False\<rparr>"

text \<open>
  The first lines of \<^verbatim>\<open>newFunctionRelease\<close>: the check of the branch against the
  pattern and the two fields read from its last two segments.
\<close>

definition branchFields :: "string \<Rightarrow> error + functionRelease" where
  "branchFields branch =
     (if \<not> MatchString releaseBranchPattern branch then Inl InvalidBranchFormat
      else let segments = Split branch CHR ''/'' in
        if length segments < 2 then Inl IndexOutOfRange
        else Inr (zeroRelease\<lparr>MinorVersion := segments ! (length segments - 1),
                               FunctionName := segments ! (length segments - 2)\<rparr>))"

text \<open>
  The loop of \<^verbatim>\<open>readLatestPatchVersion\<close> over the tags, with the pair
  \<open>(lang, latestPatchVersion)\<close> as its state.
\<close>

fun scanTags :: "string \<Rightarrow> string list \<Rightarrow> string \<times> string \<Rightarrow> error + string \<times> string" where
  "scanTags funcPattern [] (lang, latestPatchVersion) = Inr (lang, latestPatchVersion)"
| "scanTags funcPattern (tag # tags) (lang, latestPatchVersion) =
     (if \<not> Contains tag funcPattern \<or> \<not> MatchString releaseTagPattern tag
      then scanTags funcPattern tags (lang, latestPatchVersion)
      else let segments = Split tag CHR ''/'';
               patchVersion = segments ! (length segments - 1)
        in if latestPatchVersion = [] \<or> Compare patchVersion latestPatchVersion = 1
           then (if length segments < 3 then Inl IndexOutOfRange
                 else scanTags funcPattern tags (segments ! (length segments - 3), patchVersion))
           else scanTags funcPattern tags (lang, latestPatchVersion))"

text \<open>
  For the statements about the loop: the tags it does not skip, and the two segments it
  reads from a tag.
\<close>

definition survives :: "string \<Rightarrow> string \<Rightarrow> bool" where
  "survives funcPattern tag = (Contains tag funcPattern \<and> MatchString releaseTagPattern tag)"

definition patchOf :: "string \<Rightarrow> string" where
  "patchOf tag = (let segments = Split tag CHR ''/'' in segments ! (length segments - 1))"

definition langOf :: "string \<Rightarrow> string" where
  "langOf tag = (let segments = Split tag CHR ''/'' in segments ! (length segments - 3))"

definition readLatestPatchVersion :: "env \<Rightarrow> functionRelease \<Rightarrow> error + functionRelease" where
  "readLatestPatchVersion e fr =
     (if FunctionName fr = [] \<or> MinorVersion fr = [] then Inl MissingIdentifier
      else case gitTag e of
        Inl err \<Rightarrow> Inl err
      | Inr tags \<Rightarrow>
          (case scanTags (FunctionName fr @ ''/'' @ MinorVersion fr) (Split tags CHR 0x0A) ([], []) of
             Inl err \<Rightarrow> Inl err
           | Inr (lang, latestPatchVersion) \<Rightarrow>
               if latestPatchVersion = [] \<or> lang = [] then Inl NoMatchingTag
               else Inr (fr\<lparr>Language := lang, LatestPatchVersion := latestPatchVersion\<rparr>)))"

text \<open>The loop of \<^verbatim>\<open>parseMetadata\<close> over the example URLs.\<close>

fun addExamples :: "env \<Rightarrow> filesystem \<Rightarrow> string \<Rightarrow> string list \<Rightarrow> functionRelease \<Rightarrow>
    error + functionRelease" where
  "addExamples e fs examplesPath [] fr = Inr fr"
| "addExamples e fs examplesPath (exampleURL # urls) fr =
     (let segments = Split exampleURL CHR ''/'';
          exampleName = segments ! (length segments - 1);
          examplePath = pathJoin e [examplesPath, exampleName]
      in if \<not> dirExists fs examplePath then Inl (ExampleDirMissing examplePath)
         else addExamples e fs examplesPath urls
                (fr\<lparr>Examples := Examples fr @
                   [\<lparr>ExamplePath = examplePath, ExampleName = exampleName\<rparr>]\<rparr>))"

definition parseMetadata :: "env \<Rightarrow> functionRelease \<Rightarrow> string \<Rightarrow> filesystem \<Rightarrow>
    (error + functionRelease) \<times> filesystem" where
  "parseMetadata e fr examplesPath fs =
     (if FunctionPath fr = [] then (Inl ExpectedFunctionPath, fs)
      else case ReadFile fs (pathJoin e [FunctionPath fr, ''metadata.yaml'']) of
        (Inl err, fs') \<Rightarrow> (Inl err, fs')
      | (Inr yamlFile, fs') \<Rightarrow>
          (case yamlExamplePackageURLs e yamlFile of
             Inl err \<Rightarrow> (Inl err, fs')
           | Inr urls \<Rightarrow> (addExamples e fs' examplesPath urls fr, fs')))"

definition readDocPaths :: "env \<Rightarrow> functionRelease \<Rightarrow> filesystem \<Rightarrow>
    (error + functionRelease) \<times> filesystem" where
  "readDocPaths e fr fs =
     (case osExecutable e of
        Inl err \<Rightarrow> (Inl err, fs)
      | Inr executablePath \<Rightarrow>
          let repoBase = pathDir e (pathDir e (pathDir e executablePath));
              pathsToTry =
                [(pathJoin e [repoBase, ''functions'', Language fr, FunctionName fr],
                  pathJoin e [repoBase, ''examples''], False),
                 (pathJoin e [repoBase, ''contrib'', ''functions'', Language fr, FunctionName fr],
                  pathJoin e [repoBase, ''contrib'', ''examples''], True)]
          in (case find (\<lambda>(functionPath, examplesPath, isContrib). dirExists fs functionPath)
                     pathsToTry of
                None \<Rightarrow> (Inl FunctionPathNotFound, fs)
              | Some (functionPath, examplesPath, isContrib) \<Rightarrow>
                  (if functionPath = [] then (Inl FunctionPathNotFound, fs)
                   else parseMetadata e
                          (fr\<lparr>FunctionPath := functionPath, IsContrib := isContrib\<rparr>)
                          examplesPath fs)))"

definition newFunctionRelease :: "env \<Rightarrow> string \<Rightarrow> filesystem \<Rightarrow>
    (error + functionRelease) \<times> filesystem" where
  "newFunctionRelease e branch fs =
     (case branchFields branch of
        Inl err \<Rightarrow> (Inl err, fs)
      | Inr fr \<Rightarrow>
          (case readLatestPatchVersion e fr of
             Inl err \<Rightarrow> (Inl err, fs)
           | Inr fr' \<Rightarrow> readDocPaths e fr' fs))"

section \<open>The rewrite rules\<close>

text \<open>
  \<^verbatim>\<open>Sprintf\<close> splices the function name and the example names into the text of a pattern
  and the versions into the text of a template. The model takes them as literal text:
  that is how Go reads a name without regexp metacharacters and a version without
  \<^verbatim>\<open>$\<close>; the theorems below say so in their hypotheses.
\<close>

text \<open>An alternation \<^verbatim>\<open>a|b|c\<close> of literal names; of no name, the empty pattern.\<close>

fun alternation :: "string list \<Rightarrow> regex" where
  "alternation [] = Lit []"
| "alternation [n] = Lit n"
| "alternation (n # ns) = Alt (Lit n) (alternation ns)"

text \<open>replace tags with patch e.g. apply-setters:v1.0.1, apply-setters/v1.0.1\<close>

definition replaceTags :: "functionRelease \<Rightarrow> string \<Rightarrow> string" where
  "replaceTags fr contents =
     (let tagPattern = Seq [Grp (Lit (FunctionName fr)), Grp (Alt (Lit '':'') (Lit ''/'')),
                            Grp versionGroup]
      in ReplaceAll tagPattern [Ref 1, Ref 2, Txt (LatestPatchVersion fr)] contents)"

text \<open>replace url with minor e.g. https://catalog.kpt.dev/apply-setters/v1.0\<close>

definition replaceURLs :: "functionRelease \<Rightarrow> string \<Rightarrow> string" where
  "replaceURLs fr contents =
     (let urlPattern = Seq [Grp (Seq [Lit ''https://catalog.kpt.dev/'', Lit (FunctionName fr),
                                      Lit ''/'']),
                            Grp versionGroup]
      in ReplaceAll urlPattern [Ref 1, Txt (MinorVersion fr)] contents)"

text \<open>replace kpt package names for all examples\<close>

definition replaceKptPackages :: "functionRelease \<Rightarrow> string \<Rightarrow> string" where
  "replaceKptPackages fr contents =
     (let exampleGroup = alternation (exampleNames (Examples fr));
          exampleSubPath = (if IsContrib fr then ''contrib/examples'' else ''examples'');
          kptPkgPattern =
            Seq [Grp (Seq [Lit ''https://github.com/GoogleContainerTools/kpt-functions-catalog.git/'',
                           Lit exampleSubPath, Lit ''/'']),
                 Grp exampleGroup, Grp (Plus Space)]
      in ReplaceAll kptPkgPattern
           [Ref 1, Ref 2, Txt (''@'' @ FunctionName fr @ ''/'' @ LatestPatchVersion fr), Ref 3]
           contents)"

text \<open>Perform in place search/replace operations on a documentation file\<close>

definition updateDoc :: "functionRelease \<Rightarrow> string \<Rightarrow> filesystem \<Rightarrow> error option \<times> filesystem" where
  "updateDoc fr filePath fs =
     (case ReadFile fs filePath of
        (Inl err, fs') \<Rightarrow> (Some err, fs')
      | (Inr contents, fs') \<Rightarrow>
          WriteFile fs' filePath (replaceKptPackages fr (replaceURLs fr (replaceTags fr contents))))"

definition updateFunctionDoc :: "env \<Rightarrow> functionRelease \<Rightarrow> filesystem \<Rightarrow>
    error option \<times> filesystem" where
  "updateFunctionDoc e fr fs = updateDoc fr (pathJoin e [FunctionPath fr, ''README.md'']) fs"

fun updateExamples :: "env \<Rightarrow> functionRelease \<Rightarrow> functionExample list \<Rightarrow> filesystem \<Rightarrow>
    error option \<times> filesystem" where
  "updateExamples e fr [] fs = (None, fs)"
| "updateExamples e fr (example # examples) fs =
     (case updateDoc fr (pathJoin e [ExamplePath example, ''README.md'']) fs of
        (Some err, fs') \<Rightarrow> (Some err, fs')
      | (None, fs') \<Rightarrow> updateExamples e fr examples fs')"

definition updateExampleDocs :: "env \<Rightarrow> functionRelease \<Rightarrow> filesystem \<Rightarrow>
    error option \<times> filesystem" where
  "updateExampleDocs e fr fs = updateExamples e fr (Examples fr) fs"

definition updateDocs :: "env \<Rightarrow> functionRelease \<Rightarrow> filesystem \<Rightarrow> error option \<times> filesystem" where
  "updateDocs e fr fs =
     (case updateFunctionDoc e fr fs of
        (Some err, fs') \<Rightarrow> (Some err, fs')
      | (None, fs') \<Rightarrow> updateExampleDocs e fr fs')"

text \<open>
  \<^verbatim>\<open>main\<close>: the error the process exits with (\<open>None\<close> for exit code 0) and the working
  tree it leaves.
\<close>

definition main :: "env \<Rightarrow> string list \<Rightarrow> filesystem \<Rightarrow> error option \<times> filesystem" where
  "main e args fs =
     (if length args < 2 then (Some Usage, fs)
      else if \<not> isCleanRepo e fs then (Some DirtyRepo, fs)
      else case gitFetch e of
        Some err \<Rightarrow> (Some err, fs)
      | None \<Rightarrow>
        (case gitCheckout e (args ! 1) fs of
           Inl err \<Rightarrow> (Some err, fs)
         | Inr fs1 \<Rightarrow>
           (case newFunctionRelease e (args ! 1) fs1 of
              (Inl err, fs2) \<Rightarrow> (Some err, fs2)
            | (Inr fr, fs2) \<Rightarrow>
              (case updateDocs e fr fs2 of
                 (Some err, fs3) \<Rightarrow> (Some err, fs3)
               | (None, fs3) \<Rightarrow>
                 if isCleanRepo e fs3 then (Some DocsUpToDate, fs3)
                 else (case gitAdd e of
                    Some err \<Rightarrow> (Some err, fs3)
                  | None \<Rightarrow>
                    (case gitCommit e (''docs: Update tags for '' @ Language fr @ ''/'' @
                            FunctionName fr @ ''/'' @ LatestPatchVersion fr) of
                       Some err \<Rightarrow> (Some err, fs3)
                     | None \<Rightarrow> (gitShow e, fs3)))))))"

section \<open>The rewrite rules, position by position\<close>

text \<open>
  The match \<^verbatim>\<open>ReplaceAll\<close> takes at the head of a text is the first entry of \<open>rmatch\<close>.
\<close>

fun first_of :: "'a list \<Rightarrow> 'a option" where
  "first_of [] = None"
| "first_of (x # xs) = Some x"

definition first_match :: "regex \<Rightarrow> string \<Rightarrow> (string list \<times> string) option" where
  "first_match r s = first_of (rmatch r s)"

fun first_some :: "('a \<Rightarrow> 'b option) \<Rightarrow> 'a list \<Rightarrow> 'b option" where
  "first_some f [] = None"
| "first_some f (x # xs) = (case f x of Some y \<Rightarrow> Some y | None \<Rightarrow> first_some f xs)"

text \<open>
  The version token at the head of a text, as \<open>versionGroup\<close> reads it, and the text after
  it: \<^verbatim>\<open>unstable\<close> first, then \<^verbatim>\<open>v\<close>, digits, a dot, digits, a dot and digits, then
  \<^verbatim>\<open>v\<close>, digits, a dot and digits. A run of digits is as long as it can be and may be
  empty.
\<close>

definition versionToken :: "string \<Rightarrow> (string \<times> string) option" where
  "versionToken s =
     (if HasPrefix s ''unstable'' then Some (''unstable'', drop (length ''unstable'') s)
      else if \<not> HasPrefix s ''v'' then None
      else let a = takeWhile isDigit (drop 1 s); s2 = dropWhile isDigit (drop 1 s) in
        if \<not> HasPrefix s2 ''.'' then None
        else let b = takeWhile isDigit (drop 1 s2); s4 = dropWhile isDigit (drop 1 s2) in
          if HasPrefix s4 ''.''
          then Some (''v'' @ a @ ''.'' @ b @ ''.'' @ takeWhile isDigit (drop 1 s4),
                     dropWhile isDigit (drop 1 s4))
          else Some (''v'' @ a @ ''.'' @ b, s4))"

text \<open>
  A tag reference at the head of a text: the function name, a colon or a slash, and a
  version token. The separator, the token and the text after the token.
\<close>

definition tagReferenceAt :: "string \<Rightarrow> string \<Rightarrow> (char \<times> string \<times> string) option" where
  "tagReferenceAt fn s =
     (if \<not> HasPrefix s fn then None
      else case drop (length fn) s of
        [] \<Rightarrow> None
      | sep # s' \<Rightarrow>
          if sep \<noteq> CHR '':'' \<and> sep \<noteq> CHR ''/'' then None
          else map_option (\<lambda>(tok, rest). (sep, tok, rest)) (versionToken s'))"

text \<open>
  A catalog URL at the head of a text: \<^verbatim>\<open>https://catalog.kpt.dev/\<close>, the function name, a
  slash and a version token. The token and the text after it.
\<close>

definition catalogURLAt :: "string \<Rightarrow> string \<Rightarrow> (string \<times> string) option" where
  "catalogURLAt fn s =
     (if HasPrefix s (''https://catalog.kpt.dev/'' @ fn @ ''/'')
      then versionToken (drop (length (''https://catalog.kpt.dev/'' @ fn @ ''/'')) s)
      else None)"

text \<open>
  The patterns \<open>replaceTags\<close> and \<open>replaceURLs\<close> compile.
\<close>

abbreviation tagPattern :: "string \<Rightarrow> regex" where
  "tagPattern fn \<equiv> Seq [Grp (Lit fn), Grp (Alt (Lit '':'') (Lit ''/'')), Grp versionGroup]"

abbreviation urlPattern :: "string \<Rightarrow> regex" where
  "urlPattern fn \<equiv> Seq [Grp (Seq [Lit ''https://catalog.kpt.dev/'', Lit fn, Lit ''/'']),
                          Grp versionGroup]"

text \<open>
  A release as the patterns of the program describe it: the function name is a non-empty
  run of \<^verbatim>\<open>[-\w]\<close>, the latest patch version is all of a match of \<^verbatim>\<open>v\d*\.\d*\.\d*\<close>, the
  minor version all of a match of \<^verbatim>\<open>v\d*\.\d*\<close>. Such a name has no regexp metacharacter
  and such a version no \<^verbatim>\<open>$\<close>.
\<close>

definition fullMatch :: "regex \<Rightarrow> string \<Rightarrow> bool" where
  "fullMatch r s = list_ex (\<lambda>(g, s'). s' = []) (rmatch r s)"

definition plainName :: "string \<Rightarrow> bool" where
  "plainName n = (n \<noteq> [] \<and> list_all (in_class WordOrHyphen) n)"

definition isFullVersion :: "string \<Rightarrow> bool" where
  "isFullVersion p =
     fullMatch (Seq [Lit ''v'', Star Digit, Lit ''.'', Star Digit, Lit ''.'', Star Digit]) p"

definition isMinorVersion :: "string \<Rightarrow> bool" where
  "isMinorVersion p = fullMatch (Seq [Lit ''v'', Star Digit, Lit ''.'', Star Digit]) p"

text \<open>
  A text without colon and slash; and a content in which some tag reference to
  \<^verbatim>\<open>unstable\<close> is directly followed by a digit.
\<close>

definition sepfree :: "string \<Rightarrow> bool" where
  "sepfree w = (CHR '':'' \<notin> set w \<and> CHR ''/'' \<notin> set w)"

definition unstableThenDigit :: "string \<Rightarrow> string \<Rightarrow> bool" where
  "unstableThenDigit fn s =
     (\<exists>p sep d q. s = p @ fn @ sep # ''unstable'' @ d # q \<and>
        (sep = CHR '':'' \<or> sep = CHR ''/'') \<and> isDigit d)"

section \<open>A sample environment\<close>

text \<open>
  A working tree with the documentation of apply-setters and of one example, and an
  environment whose commands succeed; the theorems below are instantiated on them.
\<close>

definition demo_fs :: filesystem where
  "demo_fs =
     \<lparr>dirs = {''/repo/functions/go/apply-setters'', ''/repo/examples/apply-setters-simple''},
      files = [''/repo/functions/go/apply-setters/metadata.yaml'' \<mapsto> ''examplePackageURLs: ...'',
               ''/repo/functions/go/apply-setters/README.md'' \<mapsto> ''apply-setters:unstable'',
               ''/repo/examples/apply-setters-simple/README.md'' \<mapsto> ''apply-setters/v1.0''],
      readonly = {},
      oplog = []\<rparr>"

definition demo_env :: env where
  "demo_env =
     \<lparr>isCleanRepo = (\<lambda>fs. list_all (\<lambda>path. files fs path = files demo_fs path)
                       [''/repo/functions/go/apply-setters/README.md'',
                        ''/repo/examples/apply-setters-simple/README.md'']),
      gitFetch = None,
      gitCheckout = (\<lambda>branch fs. Inr fs),
      gitTag = Inr ''functions/go/apply-setters/v1.0.1\<newline>functions/go/apply-setters/v1.0.10\<newline>functions/go/apply-setters/v1.0.2\<newline>'',
      gitAdd = None,
      gitCommit = (\<lambda>msg. None),
      gitShow = None,
      osExecutable = Inr ''/repo/scripts/update_function_docs/update_function_docs'',
      pathDir = (\<lambda>path. Join (butlast (Split path CHR ''/'')) ''/''),
      pathJoin = (\<lambda>elems. Join elems ''/''),
      yamlExamplePackageURLs = (\<lambda>yamlFile.
        Inr [''https://github.com/GoogleContainerTools/kpt-functions-catalog.git/examples/apply-setters-simple''])\<rparr>"

definition demo_tags :: "string list" where
  "demo_tags = [''functions/go/apply-setters/v1.0.1'', ''functions/go/apply-setters/v1.0.10'',
                ''functions/go/apply-setters/v1.0.2'']"

definition prerelease_tags :: "string list" where
  "prerelease_tags = [''functions/go/apply-setters/v1.0.2-rc1'', ''functions/go/apply-setters/v1.0.1'',
                      ''functions/go/apply-setters/v1.0.2'']"

definition demo_branch :: functionRelease where
  "demo_branch = zeroRelease\<lparr>MinorVersion := ''v1.0'', FunctionName := ''apply-setters''\<rparr>"

text \<open>
  The release of the sample environment, as \<open>newFunctionRelease\<close> fills it, with the
  latest patch version \<^verbatim>\<open>v1.0.3\<close>.
\<close>

definition demo_release :: functionRelease where
  "demo_release =
     \<lparr>FunctionName = ''apply-setters'', MinorVersion = ''v1.0'', Language = ''go'',
      LatestPatchVersion = ''v1.0.3'', FunctionPath = ''/repo/functions/go/apply-setters'',
      Examples = [\<lparr>ExamplePath = ''/repo/examples/apply-setters-simple'',
                   ExampleName = ''apply-setters-simple''\<rparr>],
      IsContrib = False\<rparr>"

section \<open>The matcher against the language of a pattern\<close>

lemma star_rests_self: "s \<in> set (star_rests k s)"
  by (cases s) auto

lemma star_rests_iff:
  "s' \<in> set (star_rests k s) \<longleftrightarrow> (\<exists>m. s = m @ s' \<and> (\<forall>c \<in> set m. in_class k c))"
proof (induction s)
  case Nil
  then show ?case by auto
next
  case (Cons c cs)
  show ?case
  proof
    assume "s' \<in> set (star_rests k (c # cs))"
    then consider "s' = c # cs" | "in_class k c" "s' \<in> set (star_rests k cs)"
      by (auto split: if_splits)
    then show "\<exists>m. c # cs = m @ s' \<and> (\<forall>c \<in> set m. in_class k c)"
    proof cases
      case 1
      then show ?thesis by auto
    next
      case 2
      with Cons obtain m where "cs = m @ s'" "\<forall>c \<in> set m. in_class k c" by auto
      with 2 have "c # cs = (c # m) @ s' \<and> (\<forall>x \<in> set (c # m). in_class k x)" by simp
      then show ?thesis by blast
    qed
  next
    assume "\<exists>m. c # cs = m @ s' \<and> (\<forall>c \<in> set m. in_class k c)"
    then obtain m where m: "c # cs = m @ s'" "\<forall>c \<in> set m. in_class k c" by blast
    show "s' \<in> set (star_rests k (c # cs))"
    proof (cases m)
      case Nil
      with m show ?thesis using star_rests_self[of s' k] by simp
    next
      case (Cons x xs)
      with m have "cs = xs @ s'" "\<forall>c \<in> set xs. in_class k c" "in_class k c" by auto
      with Cons.IH show ?thesis by auto
    qed
  qed
qed

lemma rmatch_iff:
  "(\<exists>g. (g, s') \<in> set (rmatch r s)) \<longleftrightarrow> (\<exists>m \<in> regex_lang r. s = m @ s')"
proof (induction r arbitrary: s s')
  case (Lit l)
  show ?case
    by (auto simp: HasPrefix_def) (metis append_take_drop_id)
next
  case (Star k)
  show ?case by (auto simp: star_rests_iff image_iff)
next
  case (Plus k)
  show ?case
  proof (cases s)
    case Nil
    then show ?thesis by auto
  next
    case (Cons c cs)
    show ?thesis
    proof
      assume "\<exists>g. (g, s') \<in> set (rmatch (Plus k) s)"
      with Cons have "in_class k c" "s' \<in> set (star_rests k cs)"
        by (auto split: if_splits)
      then obtain m where "cs = m @ s'" "\<forall>c \<in> set m. in_class k c"
        by (auto simp: star_rests_iff)
      with Cons \<open>in_class k c\<close> have "c # m \<in> regex_lang (Plus k)" "s = (c # m) @ s'" by auto
      then show "\<exists>m \<in> regex_lang (Plus k). s = m @ s'" by blast
    next
      assume "\<exists>m \<in> regex_lang (Plus k). s = m @ s'"
      then obtain m where m: "m \<noteq> []" "\<forall>c \<in> set m. in_class k c" "s = m @ s'" by auto
      then obtain x xs where "m = x # xs" by (cases m) auto
      with m Cons have "in_class k c" "cs = xs @ s'" "\<forall>c \<in> set xs. in_class k c" by auto
      then have "s' \<in> set (star_rests k cs)" by (auto simp: star_rests_iff)
      with Cons \<open>in_class k c\<close> show "\<exists>g. (g, s') \<in> set (rmatch (Plus k) s)" by auto
    qed
  qed
next
  case (Cat r1 r2)
  show ?case
  proof
    assume "\<exists>g. (g, s') \<in> set (rmatch (Cat r1 r2) s)"
    then obtain g1 s1 g2 where
      a: "(g1, s1) \<in> set (rmatch r1 s)" and b: "(g2, s') \<in> set (rmatch r2 s1)"
      by auto
    from a Cat.IH(1)[of s1 s] obtain u where u: "u \<in> regex_lang r1" "s = u @ s1" by blast
    from b Cat.IH(2)[of s' s1] obtain v where v: "v \<in> regex_lang r2" "s1 = v @ s'" by blast
    from u v have "u @ v \<in> regex_lang (Cat r1 r2)" "s = (u @ v) @ s'" by auto
    then show "\<exists>m \<in> regex_lang (Cat r1 r2). s = m @ s'" by blast
  next
    assume "\<exists>m \<in> regex_lang (Cat r1 r2). s = m @ s'"
    then obtain u v where uv: "u \<in> regex_lang r1" "v \<in> regex_lang r2" "s = u @ v @ s'" by auto
    with Cat.IH(1)[of "v @ s'" s] obtain g1 where a: "(g1, v @ s') \<in> set (rmatch r1 s)" by blast
    from uv Cat.IH(2)[of s' "v @ s'"] obtain g2 where b: "(g2, s') \<in> set (rmatch r2 (v @ s'))" by blast
    from a b have "(g1 @ g2, s') \<in> set (rmatch (Cat r1 r2) s)" by force
    then show "\<exists>g. (g, s') \<in> set (rmatch (Cat r1 r2) s)" by blast
  qed
next
  case (Alt r1 r2)
  have "(\<exists>g. (g, s') \<in> set (rmatch (Alt r1 r2) s)) \<longleftrightarrow>
        (\<exists>g. (g, s') \<in> set (rmatch r1 s)) \<or> (\<exists>g. (g, s') \<in> set (rmatch r2 s))"
    by (auto simp: image_iff) force+
  with Alt show ?case by auto
next
  case (Grp r)
  have "(\<exists>g. (g, s') \<in> set (rmatch (Grp r) s)) \<longleftrightarrow> (\<exists>g. (g, s') \<in> set (rmatch r s))"
    by (auto simp: image_iff) force
  with Grp show ?case by simp
qed

lemma rmatch_Nil_iff: "rmatch r s = [] \<longleftrightarrow> (\<forall>m s'. s = m @ s' \<longrightarrow> m \<notin> regex_lang r)"
proof -
  have "rmatch r s = [] \<longleftrightarrow> \<not> (\<exists>s' g. (g, s') \<in> set (rmatch r s))"
    by (cases "rmatch r s") auto
  also have "\<dots> \<longleftrightarrow> \<not> (\<exists>s'. \<exists>m \<in> regex_lang r. s = m @ s')"
    using rmatch_iff[of _ r s] by blast
  finally show ?thesis by blast
qed

lemma find_first_None_iff:
  "find_first r s = None \<longleftrightarrow> (\<forall>pre m post. s = pre @ m @ post \<longrightarrow> m \<notin> regex_lang r)"
proof (induction s)
  case Nil
  have "find_first r [] = None \<longleftrightarrow> rmatch r [] = []"
    by (auto split: list.splits)
  then show ?case by (simp add: rmatch_Nil_iff)
next
  case (Cons c cs)
  have "find_first r (c # cs) = None \<longleftrightarrow> rmatch r (c # cs) = [] \<and> find_first r cs = None"
    by (auto split: list.splits)
  also have "\<dots> \<longleftrightarrow> (\<forall>m s'. c # cs = m @ s' \<longrightarrow> m \<notin> regex_lang r) \<and>
      (\<forall>pre m post. cs = pre @ m @ post \<longrightarrow> m \<notin> regex_lang r)"
    by (simp only: rmatch_Nil_iff Cons.IH)
  also have "\<dots> \<longleftrightarrow> (\<forall>pre m post. c # cs = pre @ m @ post \<longrightarrow> m \<notin> regex_lang r)"
  proof (intro iffI allI impI)
    fix pre m post
    assume h: "(\<forall>m s'. c # cs = m @ s' \<longrightarrow> m \<notin> regex_lang r) \<and>
      (\<forall>pre m post. cs = pre @ m @ post \<longrightarrow> m \<notin> regex_lang r)" and e: "c # cs = pre @ m @ post"
    show "m \<notin> regex_lang r"
    proof (cases pre)
      case Nil
      with h e show ?thesis by simp
    next
      case (Cons x xs)
      with e have "cs = xs @ m @ post" by simp
      with h show ?thesis by blast
    qed
  next
    assume h: "\<forall>pre m post. c # cs = pre @ m @ post \<longrightarrow> m \<notin> regex_lang r"
    show "(\<forall>m s'. c # cs = m @ s' \<longrightarrow> m \<notin> regex_lang r) \<and>
      (\<forall>pre m post. cs = pre @ m @ post \<longrightarrow> m \<notin> regex_lang r)"
    proof (intro conjI allI impI)
      fix m s' assume "c # cs = m @ s'"
      then have "c # cs = [] @ m @ s'" by simp
      with h show "m \<notin> regex_lang r" by blast
    next
      fix pre m post assume "cs = pre @ m @ post"
      then have "c # cs = (c # pre) @ m @ post" by simp
      with h show "m \<notin> regex_lang r" by blast
    qed
  qed
  finally show ?case .
qed

lemma MatchString_iff:
  "MatchString r s \<longleftrightarrow> (\<exists>pre m post. s = pre @ m @ post \<and> m \<in> regex_lang r)"
  unfolding MatchString_def find_first_None_iff by blast

lemma in_class_Digit: "in_class Digit = isDigit"
  by (rule ext) (simp add: isDigit_def)

lemma lang_Cat_iff:
  "m \<in> regex_lang (Cat r1 r2) \<longleftrightarrow> (\<exists>u v. m = u @ v \<and> u \<in> regex_lang r1 \<and> v \<in> regex_lang r2)"
  by auto

lemma lang_Lit_iff: "m \<in> regex_lang (Lit l) \<longleftrightarrow> m = l"
  by simp

lemma lang_Star_iff: "m \<in> regex_lang (Star k) \<longleftrightarrow> list_all (in_class k) m"
  by (simp add: list_all_iff)

lemma lang_Plus_iff: "m \<in> regex_lang (Plus k) \<longleftrightarrow> m \<noteq> [] \<and> list_all (in_class k) m"
  by (simp add: list_all_iff)

lemma lang_Alt_iff: "m \<in> regex_lang (Alt r1 r2) \<longleftrightarrow> m \<in> regex_lang r1 \<or> m \<in> regex_lang r2"
  by simp

lemma lang_Grp_iff: "m \<in> regex_lang (Grp r) \<longleftrightarrow> m \<in> regex_lang r"
  by simp

lemmas lang_iffs = lang_Cat_iff lang_Lit_iff lang_Star_iff lang_Plus_iff lang_Alt_iff lang_Grp_iff

lemma Cat_langI:
  "u \<in> regex_lang r1 \<Longrightarrow> v \<in> regex_lang r2 \<Longrightarrow> u @ v \<in> regex_lang (Cat r1 r2)"
  by auto

lemma Lit_langI: "l \<in> regex_lang (Lit l)"
  by simp

lemma Star_langI: "list_all (in_class k) w \<Longrightarrow> w \<in> regex_lang (Star k)"
  by (simp add: list_all_iff)

lemma Grp_langI: "m \<in> regex_lang r \<Longrightarrow> m \<in> regex_lang (Grp r)"
  by simp

lemmas langI = Cat_langI Lit_langI Star_langI Grp_langI

section \<open>Branch names\<close>

lemma Split_not_Nil: "Split s sep \<noteq> []"
  by (induction s) (auto split: list.splits)

lemma Split_append_sep: "Split (x @ sep # y) sep = Split x sep @ Split y sep"
proof (induction x)
  case Nil
  then show ?case by simp
next
  case (Cons c cs)
  then show ?case
    using Split_not_Nil[of cs sep] by (auto split: list.splits)
qed

lemma Split_no_sep: "sep \<notin> set s \<Longrightarrow> Split s sep = [s]"
  by (induction s) auto


lemma regex_lang_releaseBranchPattern:
  "m \<in> regex_lang releaseBranchPattern \<longleftrightarrow>
     (\<exists>w a b. m = w @ ''/'' @ ''v'' @ a @ ''.'' @ b \<and>
        list_all (in_class WordOrHyphen) w \<and> list_all (in_class Digit) a \<and> list_all (in_class Digit) b)"
proof
  assume "m \<in> regex_lang releaseBranchPattern"
  then show "\<exists>w a b. m = w @ ''/'' @ ''v'' @ a @ ''.'' @ b \<and>
        list_all (in_class WordOrHyphen) w \<and> list_all (in_class Digit) a \<and> list_all (in_class Digit) b"
    unfolding releaseBranchPattern_def Seq.simps lang_iffs by blast
next
  assume "\<exists>w a b. m = w @ ''/'' @ ''v'' @ a @ ''.'' @ b \<and>
        list_all (in_class WordOrHyphen) w \<and> list_all (in_class Digit) a \<and> list_all (in_class Digit) b"
  then obtain w a b where m: "m = w @ ''/'' @ ''v'' @ a @ ''.'' @ b"
    and w: "list_all (in_class WordOrHyphen) w" "list_all (in_class Digit) a"
      "list_all (in_class Digit) b"
    by blast
  show "m \<in> regex_lang releaseBranchPattern"
    unfolding releaseBranchPattern_def Seq.simps m by (intro langI w)
qed

lemma MatchString_releaseBranchPattern:
  "MatchString releaseBranchPattern s \<longleftrightarrow>
     (\<exists>p a q. s = p @ ''/v'' @ a @ ''.'' @ q \<and> list_all isDigit a)"
proof
  assume "MatchString releaseBranchPattern s"
  then obtain p m q where "s = p @ m @ q" "m \<in> regex_lang releaseBranchPattern"
    unfolding MatchString_iff by blast
  then obtain w a b where "s = p @ (w @ ''/'' @ ''v'' @ a @ ''.'' @ b) @ q" "list_all isDigit a"
    unfolding regex_lang_releaseBranchPattern in_class_Digit by blast
  then have "s = (p @ w) @ ''/v'' @ a @ ''.'' @ (b @ q) \<and> list_all isDigit a" by simp
  then show "\<exists>p a q. s = p @ ''/v'' @ a @ ''.'' @ q \<and> list_all isDigit a" by blast
next
  assume "\<exists>p a q. s = p @ ''/v'' @ a @ ''.'' @ q \<and> list_all isDigit a"
  then obtain p a q where s: "s = p @ ''/v'' @ a @ ''.'' @ q" and a: "list_all isDigit a" by blast
  from a have "[] @ ''/'' @ ''v'' @ a @ ''.'' @ [] \<in> regex_lang releaseBranchPattern"
    unfolding regex_lang_releaseBranchPattern in_class_Digit
    by (intro exI[of _ "[]"] exI[of _ a]) simp
  moreover from s have "s = p @ ([] @ ''/'' @ ''v'' @ a @ ''.'' @ []) @ q" by simp
  ultimately show "MatchString releaseBranchPattern s"
    unfolding MatchString_iff by blast
qed

lemma branchFields_not_panic:
  assumes "MatchString releaseBranchPattern s"
  shows "2 \<le> length (Split s CHR ''/'')"
proof -
  from assms obtain p a q where "s = p @ CHR ''/'' # (''v'' @ a @ ''.'' @ q)"
    unfolding MatchString_releaseBranchPattern by auto
  then have "Split s CHR ''/'' = Split p CHR ''/'' @ Split (''v'' @ a @ ''.'' @ q) CHR ''/''"
    by (simp only: Split_append_sep)
  then show ?thesis
    using Split_not_Nil[of p "CHR ''/''"] Split_not_Nil[of "''v'' @ a @ ''.'' @ q" "CHR ''/''"]
    by (cases "Split p CHR ''/''"; cases "Split (''v'' @ a @ ''.'' @ q) CHR ''/''") auto
qed

lemma branch_segments:
  assumes "CHR ''/'' \<notin> set fn" "CHR ''/'' \<notin> set ver" "p = [] \<or> last p = CHR ''/''"
  shows "\<exists>segs. Split (p @ fn @ CHR ''/'' # ver) CHR ''/'' = segs @ [fn, ver]"
proof (cases "p = []")
  case True
  with assms show ?thesis
    using Split_append_sep[of fn "CHR ''/''" ver] by (simp add: Split_no_sep)
next
  case False
  with assms obtain p' where p: "p = p' @ [CHR ''/'']"
    by (metis append_butlast_last_id)
  have "Split (p @ fn @ CHR ''/'' # ver) CHR ''/'' =
        Split ((p' @ CHR ''/'' # fn) @ CHR ''/'' # ver) CHR ''/''"
    using p by simp
  also have "\<dots> = Split (p' @ CHR ''/'' # fn) CHR ''/'' @ Split ver CHR ''/''"
    by (rule Split_append_sep)
  also have "Split (p' @ CHR ''/'' # fn) CHR ''/'' = Split p' CHR ''/'' @ Split fn CHR ''/''"
    by (rule Split_append_sep)
  finally show ?thesis using assms by (simp add: Split_no_sep)
qed

text \<open>
  Claim C4, as the program has it. A branch \<open>p/<fn>/v<MAJOR>.<MINOR>\<close> (the prefix \<open>p\<close> empty
  or ending in a slash, no slash in \<open><fn>\<close>) yields the function name \<open><fn>\<close> and the
  minor version \<open>v<MAJOR>.<MINOR>\<close>. A string that nowhere contains \<open>/v\<close>, digits and a
  dot is refused with the invalid-branch-format error: \<open>newFunctionRelease\<close> returns that
  error, no release, and leaves the working tree as it was.
\<close>

theorem C4_branch_parsing:
  "(CHR ''/'' \<notin> set fn \<and> list_all isDigit ma \<and> list_all isDigit mi \<and>
      (p = [] \<or> last p = CHR ''/'') \<longrightarrow>
      branchFields (p @ fn @ ''/v'' @ ma @ ''.'' @ mi) =
        Inr (zeroRelease\<lparr>MinorVersion := ''v'' @ ma @ ''.'' @ mi, FunctionName := fn\<rparr>)) \<and>
   (\<not> (\<exists>q a r. s = q @ ''/v'' @ a @ ''.'' @ r \<and> list_all isDigit a) \<longrightarrow>
      branchFields s = Inl InvalidBranchFormat \<and>
      newFunctionRelease e s fs = (Inl InvalidBranchFormat, fs))"
proof (intro conjI impI)
  assume h: "CHR ''/'' \<notin> set fn \<and> list_all isDigit ma \<and> list_all isDigit mi \<and>
      (p = [] \<or> last p = CHR ''/'')"
  let ?ver = "''v'' @ ma @ ''.'' @ mi"
  let ?b = "p @ fn @ ''/v'' @ ma @ ''.'' @ mi"
  from h have "CHR ''/'' \<notin> set ?ver" by (auto simp: list_all_iff isDigit_def)
  with h obtain segs where segs: "Split (p @ fn @ CHR ''/'' # ?ver) CHR ''/'' = segs @ [fn, ?ver]"
    using branch_segments[of fn ?ver p] by blast
  have "?b = (p @ fn) @ ''/v'' @ ma @ ''.'' @ mi \<and> list_all isDigit ma" using h by simp
  then have m: "MatchString releaseBranchPattern ?b"
    unfolding MatchString_releaseBranchPattern by blast
  have b: "?b = p @ fn @ CHR ''/'' # ?ver" by simp
  show "branchFields ?b = Inr (zeroRelease\<lparr>MinorVersion := ?ver, FunctionName := fn\<rparr>)"
    unfolding branchFields_def using m
    by (simp only: b segs Let_def) (simp add: nth_append)
next
  assume "\<not> (\<exists>q a r. s = q @ ''/v'' @ a @ ''.'' @ r \<and> list_all isDigit a)"
  then have n: "\<not> MatchString releaseBranchPattern s"
    unfolding MatchString_releaseBranchPattern .
  then show b: "branchFields s = Inl InvalidBranchFormat"
    by (simp add: branchFields_def)
  then show "newFunctionRelease e s fs = (Inl InvalidBranchFormat, fs)"
    by (simp add: newFunctionRelease_def)
qed

theorem C4_branch_parsing_witness:
  "branchFields ''a/b/c/apply-setters/v1.0'' =
     Inr (zeroRelease\<lparr>MinorVersion := ''v1.0'', FunctionName := ''apply-setters''\<rparr>) \<and>
   branchFields ''apply-setters'' = Inl InvalidBranchFormat \<and>
   newFunctionRelease demo_env ''apply-setters'' demo_fs = (Inl InvalidBranchFormat, demo_fs)"
proof -
  have "\<not> MatchString releaseBranchPattern ''apply-setters''" by code_simp
  then have n: "\<not> (\<exists>q a r. ''apply-setters'' = q @ ''/v'' @ a @ ''.'' @ r \<and> list_all isDigit a)"
    unfolding MatchString_releaseBranchPattern .
  show ?thesis
    using n C4_branch_parsing[of "''apply-setters''" "''1''" "''0''" "''a/b/c/''"
        "''apply-setters''" demo_env demo_fs]
    by (simp add: isDigit_def)
qed

text \<open>
  Against claim C4 as it is worded: a string that does not end in \<open>v<MAJOR>.<MINOR>\<close> and is
  not refused.
\<close>

theorem C4_counterexample:
  "branchFields ''apply-setters/v1.0/extra'' =
     Inr (zeroRelease\<lparr>MinorVersion := ''extra'', FunctionName := ''v1.0''\<rparr>)"
  by code_simp

section \<open>Semantic versions as numbers\<close>

lemma isDigit_bounds: "isDigit c \<Longrightarrow> 48 \<le> (of_char c :: nat) \<and> (of_char c :: nat) \<le> 57"
  by (auto simp: isDigit_def)

lemma isDigit_zero: "isDigit c \<Longrightarrow> (of_char c :: nat) = 48 \<Longrightarrow> c = CHR ''0''"
  by (auto simp: isDigit_def)

lemma decimal_less: "list_all isDigit s \<Longrightarrow> decimal s < 10 ^ length s"
proof (induction s)
  case Nil
  then show ?case by simp
next
  case (Cons c cs)
  then have "(of_char c :: nat) - 48 \<le> 9" "decimal cs < 10 ^ length cs"
    using isDigit_bounds[of c] by auto
  then have "(of_char c - 48) * 10 ^ length cs + decimal cs < 9 * 10 ^ length cs + 10 ^ length cs"
    by (meson add_le_less_mono mult_le_mono1)
  then show ?case by simp
qed

lemma decimal_ge:
  assumes "isDigit c" "c \<noteq> CHR ''0''"
  shows "10 ^ length cs \<le> decimal (c # cs)"
proof -
  from assms have "1 \<le> (of_char c :: nat) - 48"
    using isDigit_bounds[of c] isDigit_zero[of c] by (cases "(of_char c :: nat) = 48") auto
  then have "1 * 10 ^ length cs \<le> ((of_char c :: nat) - 48) * 10 ^ length cs"
    by (rule mult_le_mono1)
  then have "10 ^ length cs \<le> ((of_char c :: nat) - 48) * 10 ^ length cs"
    by (simp only: mult_1)
  then show ?thesis by (simp only: decimal.simps trans_le_add1)
qed

lemma str_less_decimal:
  "length x = length y \<Longrightarrow> list_all isDigit x \<Longrightarrow> list_all isDigit y \<Longrightarrow>
   str_less x y \<longleftrightarrow> decimal x < decimal y"
proof (induction x y rule: list_induct2)
  case Nil
  then show ?case by simp
next
  case (Cons a x b y)
  let ?n = "length y"
  let ?da = "(of_char a :: nat) - 48" and ?db = "(of_char b :: nat) - 48"
  from Cons have IH: "str_less x y \<longleftrightarrow> decimal x < decimal y" by simp
  from Cons have bx: "decimal x < 10 ^ ?n" and bdy: "decimal y < 10 ^ ?n"
    using decimal_less[of x] decimal_less[of y] by auto
  from Cons have da: "(of_char a :: nat) = ?da + 48" and db: "(of_char b :: nat) = ?db + 48"
    using isDigit_bounds[of a] isDigit_bounds[of b] by auto
  consider "?da < ?db" | "?da = ?db" | "?db < ?da" by linarith
  then show ?case
  proof cases
    case 1
    then have "Suc ?da \<le> ?db" by simp
    then have "Suc ?da * 10 ^ ?n \<le> ?db * 10 ^ ?n" by (rule mult_le_mono1)
    with bx have "?da * 10 ^ ?n + decimal x < ?db * 10 ^ ?n + decimal y" by simp
    moreover from 1 da db have "(of_char a :: nat) < of_char b" by linarith
    ultimately show ?thesis using Cons.hyps by simp
  next
    case 2
    with da db have "(of_char a :: nat) = of_char b" by simp
    then have "a = b" by simp
    with IH Cons.hyps show ?thesis by simp
  next
    case 3
    then have "Suc ?db \<le> ?da" by simp
    then have "Suc ?db * 10 ^ ?n \<le> ?da * 10 ^ ?n" by (rule mult_le_mono1)
    with bdy have "?db * 10 ^ ?n + decimal y < ?da * 10 ^ ?n + decimal x" by simp
    moreover from 3 da db have "\<not> (of_char a :: nat) < of_char b" "a \<noteq> b" by auto
    ultimately show ?thesis using Cons.hyps by simp
  qed
qed

lemma decimal_inj:
  "length x = length y \<Longrightarrow> list_all isDigit x \<Longrightarrow> list_all isDigit y \<Longrightarrow>
   decimal x = decimal y \<Longrightarrow> x = y"
proof (induction x y rule: list_induct2)
  case Nil
  then show ?case by simp
next
  case (Cons a x b y)
  let ?n = "length y"
  let ?da = "(of_char a :: nat) - 48" and ?db = "(of_char b :: nat) - 48"
  from Cons have bx: "decimal x < 10 ^ ?n" and bdy: "decimal y < 10 ^ ?n"
    using decimal_less[of x] decimal_less[of y] by auto
  from Cons have da: "(of_char a :: nat) = ?da + 48" and db: "(of_char b :: nat) = ?db + 48"
    using isDigit_bounds[of a] isDigit_bounds[of b] by auto
  from Cons.prems Cons.hyps have e: "?da * 10 ^ ?n + decimal x = ?db * 10 ^ ?n + decimal y" by simp
  have "?da = ?db"
  proof (rule ccontr)
    assume "?da \<noteq> ?db"
    then consider "Suc ?da \<le> ?db" | "Suc ?db \<le> ?da" by linarith
    then show False
    proof cases
      case 1
      then have "Suc ?da * 10 ^ ?n \<le> ?db * 10 ^ ?n" by (rule mult_le_mono1)
      with bx e show False by simp
    next
      case 2
      then have "Suc ?db * 10 ^ ?n \<le> ?da * 10 ^ ?n" by (rule mult_le_mono1)
      with bdy e show False by simp
    qed
  qed
  with da db have "(of_char a :: nat) = of_char b" by simp
  then have "a = b" by simp
  moreover from \<open>?da = ?db\<close> e have "decimal x = decimal y" by simp
  ultimately show ?case using Cons by simp
qed

lemma canonical_length_less:
  assumes "canonical x" "canonical y" "length x < length y"
  shows "decimal x < decimal y"
proof -
  from assms obtain c cs where y: "y = c # cs" by (cases y) (auto simp: canonical_def)
  with assms have "isDigit c" "c \<noteq> CHR ''0''" "length x \<le> length cs"
    by (auto simp: canonical_def)
  then have "(10::nat) ^ length x \<le> 10 ^ length cs" "10 ^ length cs \<le> decimal (c # cs)"
    using decimal_ge[of c cs] by (auto intro: power_increasing)
  moreover from assms have "decimal x < 10 ^ length x"
    by (auto simp: canonical_def intro: decimal_less)
  ultimately show ?thesis unfolding y by linarith
qed

lemma compareInt_decimal:
  assumes "canonical x" "canonical y"
  shows "compareInt x y =
    (if decimal x < decimal y then -1 else if decimal y < decimal x then 1 else 0)"
proof -
  consider "x = y" | "x \<noteq> y" "length x < length y" | "x \<noteq> y" "length y < length x"
    | "x \<noteq> y" "length x = length y" by linarith
  then show ?thesis
  proof cases
    case 1
    then show ?thesis by (simp add: compareInt_def)
  next
    case 2
    with assms have "decimal x < decimal y" by (simp add: canonical_length_less)
    with 2 show ?thesis by (simp add: compareInt_def)
  next
    case 3
    with assms have "decimal y < decimal x" by (simp add: canonical_length_less)
    with 3 show ?thesis by (simp add: compareInt_def)
  next
    case 4
    with assms have d: "list_all isDigit x" "list_all isDigit y" by (auto simp: canonical_def)
    with 4 have "decimal x \<noteq> decimal y" using decimal_inj[of x y] by auto
    moreover from 4 d have "str_less x y \<longleftrightarrow> decimal x < decimal y"
      by (simp add: str_less_decimal)
    ultimately show ?thesis using 4 by (auto simp: compareInt_def)
  qed
qed

lemma parseInt_canonical: "parseInt v = Some (t, rest) \<Longrightarrow> canonical t"
proof -
  assume a: "parseInt v = Some (t, rest)"
  then obtain c cs where v: "v = c # cs" by (cases v) (auto simp: parseInt_def)
  with a have c: "isDigit c" and t: "t = takeWhile isDigit v"
    and z: "c \<noteq> CHR ''0'' \<or> length (takeWhile isDigit v) = 1"
    by (auto simp: parseInt_def split: if_splits)
  from v c have "t \<noteq> []" "hd t = c" unfolding t by auto
  moreover have "list_all isDigit t" unfolding t list_all_iff by (auto dest: set_takeWhileD)
  ultimately show ?thesis using z t by (auto simp: canonical_def)
qed

lemma canonical_zero: "canonical ''0''"
  by (simp add: canonical_def isDigit_def)

lemma parseTail_fields:
  "parseTail ma mi pa v = Some pv \<Longrightarrow> major pv = ma \<and> minor pv = mi \<and> patch pv = pa"
  by (auto simp: parseTail_def split: option.splits if_splits)

lemma parse_canonical:
  assumes "parse v = Some pv"
  shows "canonical (major pv) \<and> canonical (minor pv) \<and> canonical (patch pv)"
proof -
  from assms obtain v1 where v: "v = CHR ''v'' # v1"
    by (cases v) (auto simp: parse_def split: if_splits)
  with assms obtain ma v2 where ma: "parseInt v1 = Some (ma, v2)"
    by (cases "parseInt v1") (auto simp: parse_def)
  then have cma: "canonical ma" by (rule parseInt_canonical)
  show ?thesis
  proof (cases v2)
    case Nil
    with assms v ma cma show ?thesis by (auto simp: parse_def canonical_zero)
  next
    case (Cons d v3)
    with assms v ma have d: "d = CHR ''.''" by (auto simp: parse_def split: if_splits)
    with assms v ma Cons obtain mi v4 where mi: "parseInt v3 = Some (mi, v4)"
      by (cases "parseInt v3") (auto simp: parse_def)
    then have cmi: "canonical mi" by (rule parseInt_canonical)
    show ?thesis
    proof (cases v4)
      case Nil
      with assms v ma Cons d mi cma cmi show ?thesis by (auto simp: parse_def canonical_zero)
    next
      case (Cons e v5)
      with assms v ma \<open>v2 = d # v3\<close> d mi have e: "e = CHR ''.''"
        by (auto simp: parse_def split: if_splits)
      with assms v ma \<open>v2 = d # v3\<close> d mi Cons obtain pa v6 where
        pa: "parseInt v5 = Some (pa, v6)"
        by (cases "parseInt v5") (auto simp: parse_def)
      then have cpa: "canonical pa" by (rule parseInt_canonical)
      from assms v ma \<open>v2 = d # v3\<close> d mi Cons e pa have "parseTail ma mi pa v6 = Some pv"
        by (simp add: parse_def)
      with cma cmi cpa show ?thesis by (auto dest: parseTail_fields)
    qed
  qed
qed

lemma str_less_iff: "str_less x y \<longleftrightarrow> x < y"
  by (induction x y rule: str_less.induct) (simp_all add: less_char_def)

lemma isNum_canonical: "d \<noteq> [] \<Longrightarrow> \<not> isBadNum d \<Longrightarrow> isNum d \<Longrightarrow> canonical d"
  by (cases d) (auto simp: isBadNum_def isNum_def canonical_def)

lemma canonical_decimal_inj: "canonical x \<Longrightarrow> canonical y \<Longrightarrow> decimal x = decimal y \<Longrightarrow> x = y"
  using compareInt_decimal[of x y] by (auto simp: compareInt_def split: if_splits)

lemma identKey_inj:
  assumes "dx \<noteq> [] \<and> \<not> isBadNum dx" "dy \<noteq> [] \<and> \<not> isBadNum dy" "identKey dx = identKey dy"
  shows "dx = dy"
proof (cases "isNum dx")
  case True
  with assms(3) have n: "isNum dy" and d: "decimal dx = decimal dy"
    by (auto simp: identKey_def split: if_splits)
  from True n assms(1,2) have c: "canonical dx" "canonical dy" by (auto intro: isNum_canonical)
  from c d show ?thesis by (rule canonical_decimal_inj)
next
  case False
  with assms(3) show ?thesis by (auto simp: identKey_def split: if_splits)
qed

lemma ident_compare:
  assumes "dx \<noteq> [] \<and> \<not> isBadNum dx" "dy \<noteq> [] \<and> \<not> isBadNum dy" "dx \<noteq> dy"
  shows "(if isNum dx \<noteq> isNum dy then (if isNum dx then -1 else 1)
          else if isNum dx \<and> length dx < length dy then -1
          else if isNum dx \<and> length dx > length dy then 1
          else if str_less dx dy then -1 else 1) =
         (if identKey dx < identKey dy then -1 else (1 :: int))"
proof (cases "isNum dx \<and> isNum dy")
  case True
  with assms(1,2) have c: "canonical dx" "canonical dy" by (auto intro: isNum_canonical)
  with assms(3) have ne: "decimal dx \<noteq> decimal dy" by (auto dest: canonical_decimal_inj)
  from True assms(3) have "(if isNum dx \<noteq> isNum dy then (if isNum dx then -1 else 1)
          else if isNum dx \<and> length dx < length dy then -1
          else if isNum dx \<and> length dx > length dy then 1
          else if str_less dx dy then -1 else 1) = compareInt dx dy"
    by (simp add: compareInt_def)
  also have "\<dots> = (if decimal dx < decimal dy then -1 else 1)"
    using ne by (simp add: compareInt_decimal[OF c])
  also have "\<dots> = (if identKey dx < identKey dy then -1 else 1)"
    using True by (simp add: identKey_def)
  finally show ?thesis .
next
  case False
  then show ?thesis by (auto simp: identKey_def str_less_iff)
qed

lemma compareIdents_key:
  assumes "list_all (\<lambda>d. d \<noteq> [] \<and> \<not> isBadNum d) xs" "list_all (\<lambda>d. d \<noteq> [] \<and> \<not> isBadNum d) ys"
  shows "compareIdents xs ys = (if map identKey xs < map identKey ys \<or> xs = ys then -1 else 1)"
  using assms
proof (induction xs ys rule: compareIdents.induct)
  case (1 ys)
  then show ?case by (cases ys) simp_all
next
  case (2 dx xs)
  then show ?case by simp
next
  case (3 dx xs dy ys)
  show ?case
  proof (cases "dx = dy")
    case True
    with 3 show ?thesis by simp
  next
    case False
    from 3(2,3) have g: "dx \<noteq> [] \<and> \<not> isBadNum dx" "dy \<noteq> [] \<and> \<not> isBadNum dy" by simp_all
    from False have k: "identKey dx \<noteq> identKey dy" using identKey_inj[OF g] by blast
    have "compareIdents (dx # xs) (dy # ys) = (if identKey dx < identKey dy then -1 else 1)"
      using False ident_compare[OF g False] by (simp only: compareIdents.simps if_True not_False_eq_True)
    with False k show ?thesis by simp
  qed
qed

lemma Join_Split: "Join (Split s c) [c] = s"
proof (induction s)
  case Nil
  then show ?case by simp
next
  case (Cons a s)
  obtain seg segs where sp: "Split s c = seg # segs" using Split_not_Nil[of s c] by (cases "Split s c") auto
  show ?case
  proof (cases "a = c")
    case True
    with sp Cons show ?thesis by simp
  next
    case False
    with sp Cons show ?thesis by (cases segs) simp_all
  qed
qed

lemma Split_inj: "Split a c = Split b c \<Longrightarrow> a = b"
  by (metis Join_Split)


lemma parseTail_prerelease: "parseTail ma mi pa v = Some pv \<Longrightarrow> wfPre (prerelease pv)"
  by (auto simp: parseTail_def parsePrerelease_def wfPre_def Let_def
      split: option.splits if_splits)

lemma parse_prerelease:
  assumes "parse v = Some pv"
  shows "wfPre (prerelease pv)"
proof -
  from assms obtain v1 where v: "v = CHR ''v'' # v1"
    by (cases v) (auto simp: parse_def split: if_splits)
  with assms obtain ma v2 where ma: "parseInt v1 = Some (ma, v2)"
    by (cases "parseInt v1") (auto simp: parse_def)
  show ?thesis
  proof (cases v2)
    case Nil
    with assms v ma show ?thesis by (auto simp: parse_def wfPre_def)
  next
    case (Cons d v3)
    with assms v ma have d: "d = CHR ''.''" by (auto simp: parse_def split: if_splits)
    with assms v ma Cons obtain mi v4 where mi: "parseInt v3 = Some (mi, v4)"
      by (cases "parseInt v3") (auto simp: parse_def)
    show ?thesis
    proof (cases v4)
      case Nil
      with assms v ma Cons d mi show ?thesis by (auto simp: parse_def wfPre_def)
    next
      case (Cons e v5)
      with assms v ma \<open>v2 = d # v3\<close> d mi have e: "e = CHR ''.''"
        by (auto simp: parse_def split: if_splits)
      with assms v ma \<open>v2 = d # v3\<close> d mi Cons obtain pa v6 where
        pa: "parseInt v5 = Some (pa, v6)"
        by (cases "parseInt v5") (auto simp: parse_def)
      from assms v ma \<open>v2 = d # v3\<close> d mi Cons e pa have "parseTail ma mi pa v6 = Some pv"
        by (simp add: parse_def)
      then show ?thesis by (rule parseTail_prerelease)
    qed
  qed
qed

lemma map_identKey_inj:
  assumes "list_all (\<lambda>d. d \<noteq> [] \<and> \<not> isBadNum d) xs" "list_all (\<lambda>d. d \<noteq> [] \<and> \<not> isBadNum d) ys"
    and "map identKey xs = map identKey ys"
  shows "xs = ys"
proof -
  from assms(3) have "length xs = length ys" by (rule map_eq_imp_length_eq)
  then show ?thesis using assms
  proof (induction xs ys rule: list_induct2)
    case Nil
    then show ?case by simp
  next
    case (Cons x xs y ys)
    then have "x = y" using identKey_inj[of x y] by simp
    with Cons show ?case by simp
  qed
qed

lemma comparePrerelease_key:
  assumes "wfPre x" "wfPre y"
  shows "comparePrerelease x y =
    (if prereleaseKey x < prereleaseKey y then -1
     else if prereleaseKey y < prereleaseKey x then 1 else 0)"
proof -
  consider "x = y" | "x \<noteq> y" "x = []" | "x \<noteq> y" "x \<noteq> []" "y = []" | "x \<noteq> y" "x \<noteq> []" "y \<noteq> []"
    by blast
  then show ?thesis
  proof cases
    case 1
    then show ?thesis by (simp add: comparePrerelease_def)
  next
    case 2
    then show ?thesis by (simp add: comparePrerelease_def prereleaseKey_def)
  next
    case 3
    then show ?thesis by (simp add: comparePrerelease_def prereleaseKey_def)
  next
    case 4
    let ?X = "Split (tl x) CHR ''.''" and ?Y = "Split (tl y) CHR ''.''"
    from 4 assms have g: "list_all (\<lambda>d. d \<noteq> [] \<and> \<not> isBadNum d) ?X"
      "list_all (\<lambda>d. d \<noteq> [] \<and> \<not> isBadNum d) ?Y"
      and h: "hd x = CHR ''-''" "hd y = CHR ''-''"
      by (auto simp: wfPre_def)
    have "tl x \<noteq> tl y"
    proof
      assume "tl x = tl y"
      with 4 h have "x = y" by (metis list.collapse)
      with 4 show False by simp
    qed
    then have ne: "?X \<noteq> ?Y" using Split_inj by blast
    with g have kne: "map identKey ?X \<noteq> map identKey ?Y" using map_identKey_inj by blast
    have "comparePrerelease x y = compareIdents ?X ?Y" using 4 by (simp add: comparePrerelease_def)
    also have "\<dots> = (if map identKey ?X < map identKey ?Y then -1 else 1)"
      using ne by (simp add: compareIdents_key[OF g])
    finally show ?thesis using 4 kne by (auto simp: prereleaseKey_def)
  qed
qed

lemma Compare_precedence:
  assumes "IsValid v" "IsValid w"
  shows "Compare v w =
    (if precedence v < precedence w then -1 else if precedence w < precedence v then 1 else 0)"
proof -
  from assms obtain pv pw where p: "parse v = Some pv" "parse w = Some pw"
    by (auto simp: IsValid_def)
  from p have c: "canonical (major pv)" "canonical (minor pv)" "canonical (patch pv)"
    "canonical (major pw)" "canonical (minor pw)" "canonical (patch pw)"
    by (auto dest: parse_canonical)
  from p have w: "wfPre (prerelease pv)" "wfPre (prerelease pw)"
    by (auto dest: parse_prerelease)
  show ?thesis
    using p
    by (simp add: Compare_def precedence_def comparePrerelease_key[OF w]
        compareInt_decimal[OF c(1) c(4)] compareInt_decimal[OF c(2) c(5)]
        compareInt_decimal[OF c(3) c(6)])
qed

lemma IsValid_not_Nil: "IsValid v \<Longrightarrow> v \<noteq> []"
  by (auto simp: IsValid_def parse_def)

section \<open>Release tags\<close>

lemma Contains_iff: "Contains s sub \<longleftrightarrow> (\<exists>p q. s = p @ sub @ q)"
proof (induction s)
  case Nil
  then show ?case by auto
next
  case (Cons c cs)
  show ?case
  proof
    assume "Contains (c # cs) sub"
    then consider "HasPrefix (c # cs) sub" | "Contains cs sub" by auto
    then show "\<exists>p q. c # cs = p @ sub @ q"
    proof cases
      case 1
      then have "c # cs = [] @ sub @ drop (length sub) (c # cs)"
        unfolding HasPrefix_def by (metis append_Nil append_take_drop_id)
      then show ?thesis by blast
    next
      case 2
      with Cons obtain p q where "cs = p @ sub @ q" by blast
      then have "c # cs = (c # p) @ sub @ q" by simp
      then show ?thesis by blast
    qed
  next
    assume "\<exists>p q. c # cs = p @ sub @ q"
    then obtain p q where e: "c # cs = p @ sub @ q" by blast
    show "Contains (c # cs) sub"
    proof (cases p)
      case Nil
      with e have "HasPrefix (c # cs) sub" by (simp add: HasPrefix_def)
      then show ?thesis by simp
    next
      case (Cons x xs)
      with e have "cs = xs @ sub @ q" by simp
      with Cons.IH show ?thesis by auto
    qed
  qed
qed

lemma regex_lang_releaseTagPattern:
  "m \<in> regex_lang releaseTagPattern \<longleftrightarrow>
     (\<exists>x l n a b c. m = x @ l @ ''/'' @ n @ ''/'' @ ''v'' @ a @ ''.'' @ b @ ''.'' @ c \<and>
        list_all (in_class AnyChar) x \<and> (l = ''go'' \<or> l = ''ts'') \<and>
        list_all (in_class WordOrHyphen) n \<and>
        list_all (in_class Digit) a \<and> list_all (in_class Digit) b \<and> list_all (in_class Digit) c)"
  (is "?L \<longleftrightarrow> ?R")
proof
  assume ?L
  then show ?R
    unfolding releaseTagPattern_def Seq.simps lang_iffs by blast
next
  assume ?R
  then obtain x l n a b c where
    m: "m = x @ l @ ''/'' @ n @ ''/'' @ ''v'' @ a @ ''.'' @ b @ ''.'' @ c"
    and w: "list_all (in_class AnyChar) x" "list_all (in_class WordOrHyphen) n"
      "list_all (in_class Digit) a" "list_all (in_class Digit) b" "list_all (in_class Digit) c"
    and l: "l = ''go'' \<or> l = ''ts''"
    by blast
  from l have "l \<in> regex_lang (Alt (Lit ''go'') (Lit ''ts''))" by auto
  then show ?L
    unfolding releaseTagPattern_def Seq.simps m by (intro langI w)
qed

lemma MatchString_releaseTagPattern:
  "MatchString releaseTagPattern t \<longleftrightarrow>
     (\<exists>p l n a b q. t = p @ l @ ''/'' @ n @ ''/v'' @ a @ ''.'' @ b @ ''.'' @ q \<and>
        (l = ''go'' \<or> l = ''ts'') \<and> list_all (in_class WordOrHyphen) n \<and>
        list_all isDigit a \<and> list_all isDigit b)"
  (is "?L \<longleftrightarrow> ?R")
proof
  assume ?L
  then obtain p m q where "t = p @ m @ q" "m \<in> regex_lang releaseTagPattern"
    unfolding MatchString_iff by blast
  then obtain x l n a b c where
    "t = p @ (x @ l @ ''/'' @ n @ ''/'' @ ''v'' @ a @ ''.'' @ b @ ''.'' @ c) @ q"
    "l = ''go'' \<or> l = ''ts''" "list_all (in_class WordOrHyphen) n"
    "list_all isDigit a" "list_all isDigit b"
    unfolding regex_lang_releaseTagPattern in_class_Digit by blast
  then have "t = (p @ x) @ l @ ''/'' @ n @ ''/v'' @ a @ ''.'' @ b @ ''.'' @ (c @ q) \<and>
        (l = ''go'' \<or> l = ''ts'') \<and> list_all (in_class WordOrHyphen) n \<and>
        list_all isDigit a \<and> list_all isDigit b" by simp
  then show ?R by blast
next
  assume ?R
  then obtain p l n a b q where
    t: "t = p @ l @ ''/'' @ n @ ''/v'' @ a @ ''.'' @ b @ ''.'' @ q"
    and h: "l = ''go'' \<or> l = ''ts''" "list_all (in_class WordOrHyphen) n"
      "list_all isDigit a" "list_all isDigit b"
    by blast
  from h have "[] @ l @ ''/'' @ n @ ''/'' @ ''v'' @ a @ ''.'' @ b @ ''.'' @ []
      \<in> regex_lang releaseTagPattern"
    unfolding regex_lang_releaseTagPattern in_class_Digit
    by (intro exI[of _ "[]"] exI[of _ l] exI[of _ n] exI[of _ a] exI[of _ b]) simp
  moreover from t have
    "t = p @ ([] @ l @ ''/'' @ n @ ''/'' @ ''v'' @ a @ ''.'' @ b @ ''.'' @ []) @ q" by simp
  ultimately show ?L unfolding MatchString_iff by blast
qed

lemma Split_length_append: "length (Split (x @ sep # y) sep) = length (Split x sep) + length (Split y sep)"
  by (simp only: Split_append_sep length_append)

lemma tag_three_segments:
  assumes "MatchString releaseTagPattern t"
  shows "3 \<le> length (Split t CHR ''/'')"
proof -
  from assms obtain p l n a b q where
    "t = p @ l @ ''/'' @ n @ ''/v'' @ a @ ''.'' @ b @ ''.'' @ q"
    unfolding MatchString_releaseTagPattern by blast
  then have "t = (p @ l) @ CHR ''/'' # (n @ CHR ''/'' # (''v'' @ a @ ''.'' @ b @ ''.'' @ q))"
    by simp
  then have "length (Split t CHR ''/'') =
      length (Split (p @ l) CHR ''/'') + (length (Split n CHR ''/'') +
        length (Split (''v'' @ a @ ''.'' @ b @ ''.'' @ q) CHR ''/''))"
    by (simp only: Split_length_append)
  moreover have "1 \<le> length (Split s CHR ''/'')" for s
    using Split_not_Nil[of s "CHR ''/''"] by (cases "Split s CHR ''/''") auto
  then have "1 \<le> length (Split (p @ l) CHR ''/'')" "1 \<le> length (Split n CHR ''/'')"
    "1 \<le> length (Split (''v'' @ a @ ''.'' @ b @ ''.'' @ q) CHR ''/'')"
    by blast+
  ultimately show ?thesis by linarith
qed

lemma scanTags_skip:
  "\<not> survives fp tag \<Longrightarrow> scanTags fp (tag # tags) st = scanTags fp tags st"
  by (cases st) (auto simp: survives_def)

lemma scanTags_take:
  assumes "survives fp tag" "q = [] \<or> Compare (patchOf tag) q = 1"
  shows "scanTags fp (tag # tags) (l, q) = scanTags fp tags (langOf tag, patchOf tag)"
  using assms tag_three_segments[of tag]
  by (auto simp: survives_def patchOf_def langOf_def Let_def)

lemma scanTags_keep:
  assumes "survives fp tag" "q \<noteq> []" "Compare (patchOf tag) q \<noteq> 1"
  shows "scanTags fp (tag # tags) (l, q) = scanTags fp tags (l, q)"
  using assms by (auto simp: survives_def patchOf_def Let_def)

declare scanTags.simps(2) [simp del]

lemma scanTags_filter: "scanTags fp tags st = scanTags fp (filter (survives fp) tags) st"
proof (induction tags arbitrary: st)
  case Nil
  then show ?case by simp
next
  case (Cons tag tags)
  obtain l q where st: "st = (l, q)" by (cases st)
  show ?case
  proof (cases "survives fp tag")
    case False
    with Cons show ?thesis by (simp add: scanTags_skip)
  next
    case True
    show ?thesis
    proof (cases "q = [] \<or> Compare (patchOf tag) q = 1")
      case True
      with \<open>survives fp tag\<close> Cons[of "(langOf tag, patchOf tag)"] show ?thesis
        unfolding st by (simp add: scanTags_take)
    next
      case False
      with \<open>survives fp tag\<close> Cons[of "(l, q)"] show ?thesis
        unfolding st by (simp add: scanTags_keep)
    qed
  qed
qed

lemma scanTags_no_survivor:
  "\<forall>tag \<in> set tags. \<not> survives fp tag \<Longrightarrow> scanTags fp tags st = Inr st"
proof -
  assume "\<forall>tag \<in> set tags. \<not> survives fp tag"
  then have "filter (survives fp) tags = []" by (simp add: filter_empty_conv)
  then show ?thesis using scanTags_filter[of fp tags st] by (cases st) simp
qed

text \<open>The loop over surviving valid versions keeps the first greatest one.\<close>

lemma scanTags_max:
  assumes "\<forall>t \<in> set ts. survives fp t \<and> IsValid (patchOf t)" "IsValid q"
  shows "(scanTags fp ts (l, q) = Inr (l, q) \<and>
            (\<forall>t \<in> set ts. precedence (patchOf t) \<le> precedence q)) \<or>
         (\<exists>i < length ts.
            scanTags fp ts (l, q) = Inr (langOf (ts ! i), patchOf (ts ! i)) \<and>
            precedence q < precedence (patchOf (ts ! i)) \<and>
            (\<forall>j < length ts. precedence (patchOf (ts ! j)) \<le> precedence (patchOf (ts ! i))) \<and>
            (\<forall>j < i. precedence (patchOf (ts ! j)) < precedence (patchOf (ts ! i))))"
  using assms
proof (induction ts arbitrary: l q)
  case Nil
  then show ?case by simp
next
  case (Cons t ts)
  let ?p = "patchOf t"
  let ?k = "\<lambda>t. precedence (patchOf t)"
  from Cons.prems have st: "survives fp t" and rp: "IsValid ?p"
    and rest: "\<forall>t \<in> set ts. survives fp t \<and> IsValid (patchOf t)" and q: "q \<noteq> []"
    by (auto dest: IsValid_not_Nil)
  show ?case
  proof (cases "precedence q < precedence ?p")
    case True
    with rp Cons.prems have "Compare ?p q = 1" by (simp add: Compare_precedence)
    with st have step: "scanTags fp (t # ts) (l, q) = scanTags fp ts (langOf t, ?p)"
      by (simp add: scanTags_take)
    from Cons.IH[OF rest rp, of "langOf t"] show ?thesis
    proof (elim disjE conjE exE)
      assume a: "scanTags fp ts (langOf t, ?p) = Inr (langOf t, ?p)"
        "\<forall>t \<in> set ts. ?k t \<le> precedence ?p"
      have "\<forall>j < length (t # ts). ?k ((t # ts) ! j) \<le> ?k ((t # ts) ! 0)"
      proof (intro allI impI)
        fix j assume "j < length (t # ts)"
        then show "?k ((t # ts) ! j) \<le> ?k ((t # ts) ! 0)"
          using a(2) by (cases j) auto
      qed
      with a step True have "0 < length (t # ts) \<and>
            scanTags fp (t # ts) (l, q) = Inr (langOf ((t # ts) ! 0), patchOf ((t # ts) ! 0)) \<and>
            precedence q < ?k ((t # ts) ! 0) \<and>
            (\<forall>j < length (t # ts). ?k ((t # ts) ! j) \<le> ?k ((t # ts) ! 0)) \<and>
            (\<forall>j < 0. ?k ((t # ts) ! j) < ?k ((t # ts) ! 0))"
        by simp
      then show ?thesis by blast
    next
      fix i
      assume i: "i < length ts"
        and a: "scanTags fp ts (langOf t, ?p) = Inr (langOf (ts ! i), patchOf (ts ! i))"
        and b: "precedence ?p < ?k (ts ! i)"
        and c: "\<forall>j < length ts. ?k (ts ! j) \<le> ?k (ts ! i)"
        and d: "\<forall>j < i. ?k (ts ! j) < ?k (ts ! i)"
      have "\<forall>j < length (t # ts). ?k ((t # ts) ! j) \<le> ?k ((t # ts) ! Suc i)"
      proof (intro allI impI)
        fix j assume "j < length (t # ts)"
        then show "?k ((t # ts) ! j) \<le> ?k ((t # ts) ! Suc i)"
          using b c by (cases j) auto
      qed
      moreover have "\<forall>j < Suc i. ?k ((t # ts) ! j) < ?k ((t # ts) ! Suc i)"
      proof (intro allI impI)
        fix j assume "j < Suc i"
        then show "?k ((t # ts) ! j) < ?k ((t # ts) ! Suc i)"
          using b d by (cases j) auto
      qed
      moreover from True b have "precedence q < ?k ((t # ts) ! Suc i)" by simp
      ultimately have "Suc i < length (t # ts) \<and>
            scanTags fp (t # ts) (l, q) =
              Inr (langOf ((t # ts) ! Suc i), patchOf ((t # ts) ! Suc i)) \<and>
            precedence q < ?k ((t # ts) ! Suc i) \<and>
            (\<forall>j < length (t # ts). ?k ((t # ts) ! j) \<le> ?k ((t # ts) ! Suc i)) \<and>
            (\<forall>j < Suc i. ?k ((t # ts) ! j) < ?k ((t # ts) ! Suc i))"
        using i a step by simp
      then show ?thesis by blast
    qed
  next
    case False
    with rp Cons.prems have "Compare ?p q \<noteq> 1" by (simp add: Compare_precedence)
    with st q have step: "scanTags fp (t # ts) (l, q) = scanTags fp ts (l, q)"
      by (simp add: scanTags_keep)
    from False have le: "precedence ?p \<le> precedence q" by simp
    from Cons.IH[OF rest Cons.prems(2), of l] show ?thesis
    proof (elim disjE conjE exE)
      assume "scanTags fp ts (l, q) = Inr (l, q)" "\<forall>t \<in> set ts. ?k t \<le> precedence q"
      with step le show ?thesis by simp
    next
      fix i
      assume i: "i < length ts"
        and a: "scanTags fp ts (l, q) = Inr (langOf (ts ! i), patchOf (ts ! i))"
        and b: "precedence q < ?k (ts ! i)"
        and c: "\<forall>j < length ts. ?k (ts ! j) \<le> ?k (ts ! i)"
        and d: "\<forall>j < i. ?k (ts ! j) < ?k (ts ! i)"
      from le b have lt: "precedence ?p < ?k (ts ! i)" by simp
      have "\<forall>j < length (t # ts). ?k ((t # ts) ! j) \<le> ?k ((t # ts) ! Suc i)"
      proof (intro allI impI)
        fix j assume "j < length (t # ts)"
        then show "?k ((t # ts) ! j) \<le> ?k ((t # ts) ! Suc i)"
          using lt c by (cases j) auto
      qed
      moreover have "\<forall>j < Suc i. ?k ((t # ts) ! j) < ?k ((t # ts) ! Suc i)"
      proof (intro allI impI)
        fix j assume "j < Suc i"
        then show "?k ((t # ts) ! j) < ?k ((t # ts) ! Suc i)"
          using lt d by (cases j) auto
      qed
      ultimately have "Suc i < length (t # ts) \<and>
            scanTags fp (t # ts) (l, q) =
              Inr (langOf ((t # ts) ! Suc i), patchOf ((t # ts) ! Suc i)) \<and>
            precedence q < ?k ((t # ts) ! Suc i) \<and>
            (\<forall>j < length (t # ts). ?k ((t # ts) ! j) \<le> ?k ((t # ts) ! Suc i)) \<and>
            (\<forall>j < Suc i. ?k ((t # ts) ! j) < ?k ((t # ts) ! Suc i))"
        using i a b step by simp
      then show ?thesis by blast
    qed
  qed
qed

lemma survives_iff:
  "survives fp tag \<longleftrightarrow>
     (\<exists>p q. tag = p @ fp @ q) \<and>
     (\<exists>p l n a b q. tag = p @ l @ ''/'' @ n @ ''/v'' @ a @ ''.'' @ b @ ''.'' @ q \<and>
        (l = ''go'' \<or> l = ''ts'') \<and> list_all (in_class WordOrHyphen) n \<and>
        list_all isDigit a \<and> list_all isDigit b)"
  unfolding survives_def Contains_iff MatchString_releaseTagPattern ..

text \<open>
  Claim C3, as the program has it. A tag is skipped by the loop, wherever it stands in the
  list and whatever the loop has found so far, when it does not contain the text
  \<open><function-name>/<minor-version>\<close> or when no part of it matches the release-tag pattern:
  \<open>go\<close> or \<open>ts\<close>, a slash, letters, digits, underscores and hyphens, \<open>/v\<close>, digits, a dot,
  digits and a dot (each run possibly empty). The result of the loop is the same with the
  tag and without it.
\<close>

theorem C3_ignored_tags:
  "\<not> (\<exists>p q. tag = p @ fp @ q) \<or>
   \<not> (\<exists>p l n a b q. tag = p @ l @ ''/'' @ n @ ''/v'' @ a @ ''.'' @ b @ ''.'' @ q \<and>
        (l = ''go'' \<or> l = ''ts'') \<and> list_all (in_class WordOrHyphen) n \<and>
        list_all isDigit a \<and> list_all isDigit b) \<longrightarrow>
   scanTags fp (xs @ tag # ys) st = scanTags fp (xs @ ys) st"
proof
  assume "\<not> (\<exists>p q. tag = p @ fp @ q) \<or>
    \<not> (\<exists>p l n a b q. tag = p @ l @ ''/'' @ n @ ''/v'' @ a @ ''.'' @ b @ ''.'' @ q \<and>
        (l = ''go'' \<or> l = ''ts'') \<and> list_all (in_class WordOrHyphen) n \<and>
        list_all isDigit a \<and> list_all isDigit b)"
  then have "\<not> survives fp tag" unfolding survives_iff by blast
  then have "filter (survives fp) (xs @ tag # ys) = filter (survives fp) (xs @ ys)" by simp
  then show "scanTags fp (xs @ tag # ys) st = scanTags fp (xs @ ys) st"
    using scanTags_filter[of fp "xs @ tag # ys" st] scanTags_filter[of fp "xs @ ys" st] by simp
qed

theorem C3_ignored_tags_witness:
  "scanTags ''apply-setters/v1.0''
     ([''functions/go/apply-setters/v1.0.1''] @ ''functions/go/set-labels/v1.0.7'' #
      [''functions/go/apply-setters/v1.0.2'']) ([], []) =
   scanTags ''apply-setters/v1.0''
     ([''functions/go/apply-setters/v1.0.1''] @ [''functions/go/apply-setters/v1.0.2'']) ([], []) \<and>
   scanTags ''apply-setters/v1.0''
     ([''functions/go/apply-setters/v1.0.1''] @ ''apply-setters/v1.0'' #
      [''functions/go/apply-setters/v1.0.2'']) ([], []) =
   scanTags ''apply-setters/v1.0''
     ([''functions/go/apply-setters/v1.0.1''] @ [''functions/go/apply-setters/v1.0.2'']) ([], [])"
proof -
  have a: "\<not> Contains ''functions/go/set-labels/v1.0.7'' ''apply-setters/v1.0''" by code_simp
  have b: "\<not> MatchString releaseTagPattern ''apply-setters/v1.0''" by code_simp
  show ?thesis
    using C3_ignored_tags[of "''functions/go/set-labels/v1.0.7''" "''apply-setters/v1.0''"
        "[''functions/go/apply-setters/v1.0.1'']" "[''functions/go/apply-setters/v1.0.2'']"
        "([], [])"]
      C3_ignored_tags[of "''apply-setters/v1.0''" "''apply-setters/v1.0''"
        "[''functions/go/apply-setters/v1.0.1'']" "[''functions/go/apply-setters/v1.0.2'']"
        "([], [])"]
      a b
    unfolding Contains_iff MatchString_releaseTagPattern by blast
qed

text \<open>
  Against claim C3 as it is worded: a tag whose last segment is not a version and that is
  not skipped.
\<close>

theorem C3_counterexample:
  "scanTags ''apply-setters/v1.0'' [''functions/go/apply-setters/v1.0.1/extra''] ([], []) =
     Inr (''apply-setters'', ''extra'')"
  by code_simp

text \<open>
  Claim C1, as the program has it. When every tag the loop does not skip ends in a version that
  \<^verbatim>\<open>semver\<close> accepts, the release resolved is the one of the first tag whose version
  is greatest in the precedence of semantic versions (major, minor and patch compared as
  numbers, then the prerelease part): no surviving tag has a greater version, and every
  surviving tag before it has a smaller one. The language is read from the same tag.
\<close>

theorem C1_latest_patch_is_maximum:
  assumes "FunctionName fr \<noteq> []" "MinorVersion fr \<noteq> []" "gitTag e = Inr raw"
    and "ts = filter (survives (FunctionName fr @ ''/'' @ MinorVersion fr)) (Split raw CHR 0x0A)"
    and "ts \<noteq> []" "\<forall>t \<in> set ts. IsValid (patchOf t)"
  shows "\<exists>i < length ts.
     scanTags (FunctionName fr @ ''/'' @ MinorVersion fr) (Split raw CHR 0x0A) ([], []) =
       Inr (langOf (ts ! i), patchOf (ts ! i)) \<and>
     readLatestPatchVersion e fr =
       (if langOf (ts ! i) = [] then Inl NoMatchingTag
        else Inr (fr\<lparr>Language := langOf (ts ! i), LatestPatchVersion := patchOf (ts ! i)\<rparr>)) \<and>
     (\<forall>j < length ts. precedence (patchOf (ts ! j)) \<le> precedence (patchOf (ts ! i))) \<and>
     (\<forall>j < i. precedence (patchOf (ts ! j)) < precedence (patchOf (ts ! i)))"
proof -
  let ?fp = "FunctionName fr @ ''/'' @ MinorVersion fr"
  let ?k = "\<lambda>t. precedence (patchOf t)"
  from assms(5) obtain t ts' where ts: "ts = t # ts'" by (cases ts) auto
  have sv: "\<forall>t \<in> set ts. survives ?fp t" unfolding assms(4) by simp
  with assms(6) ts have t: "survives ?fp t" "IsValid (patchOf t)"
    and rest: "\<forall>u \<in> set ts'. survives ?fp u \<and> IsValid (patchOf u)"
    by auto
  have run: "scanTags ?fp (Split raw CHR 0x0A) ([], []) = scanTags ?fp ts' (langOf t, patchOf t)"
    using scanTags_filter[of ?fp "Split raw CHR 0x0A" "([], [])"] t(1)
    unfolding assms(4)[symmetric] ts by (simp add: scanTags_take)
  have "\<exists>i < length ts.
     scanTags ?fp (Split raw CHR 0x0A) ([], []) = Inr (langOf (ts ! i), patchOf (ts ! i)) \<and>
     (\<forall>j < length ts. ?k (ts ! j) \<le> ?k (ts ! i)) \<and> (\<forall>j < i. ?k (ts ! j) < ?k (ts ! i))"
    using scanTags_max[OF rest t(2), of "langOf t"]
  proof (elim disjE conjE exE)
    assume a: "scanTags ?fp ts' (langOf t, patchOf t) = Inr (langOf t, patchOf t)"
      "\<forall>u \<in> set ts'. ?k u \<le> ?k t"
    have "\<forall>j < length ts. ?k (ts ! j) \<le> ?k (ts ! 0)"
    proof (intro allI impI)
      fix j assume "j < length ts"
      then show "?k (ts ! j) \<le> ?k (ts ! 0)" using a(2) unfolding ts by (cases j) auto
    qed
    with a(1) run have "0 < length ts \<and>
      scanTags ?fp (Split raw CHR 0x0A) ([], []) = Inr (langOf (ts ! 0), patchOf (ts ! 0)) \<and>
      (\<forall>j < length ts. ?k (ts ! j) \<le> ?k (ts ! 0)) \<and> (\<forall>j < 0. ?k (ts ! j) < ?k (ts ! 0))"
      unfolding ts by simp
    then show ?thesis by blast
  next
    fix i
    assume i: "i < length ts'"
      and a: "scanTags ?fp ts' (langOf t, patchOf t) = Inr (langOf (ts' ! i), patchOf (ts' ! i))"
      and b: "?k t < ?k (ts' ! i)"
      and c: "\<forall>j < length ts'. ?k (ts' ! j) \<le> ?k (ts' ! i)"
      and d: "\<forall>j < i. ?k (ts' ! j) < ?k (ts' ! i)"
    have "\<forall>j < length ts. ?k (ts ! j) \<le> ?k (ts ! Suc i)"
    proof (intro allI impI)
      fix j assume "j < length ts"
      then show "?k (ts ! j) \<le> ?k (ts ! Suc i)" using b c unfolding ts by (cases j) auto
    qed
    moreover have "\<forall>j < Suc i. ?k (ts ! j) < ?k (ts ! Suc i)"
    proof (intro allI impI)
      fix j assume "j < Suc i"
      then show "?k (ts ! j) < ?k (ts ! Suc i)" using b d unfolding ts by (cases j) auto
    qed
    ultimately have "Suc i < length ts \<and>
      scanTags ?fp (Split raw CHR 0x0A) ([], []) =
        Inr (langOf (ts ! Suc i), patchOf (ts ! Suc i)) \<and>
      (\<forall>j < length ts. ?k (ts ! j) \<le> ?k (ts ! Suc i)) \<and>
      (\<forall>j < Suc i. ?k (ts ! j) < ?k (ts ! Suc i))"
      using i a run unfolding ts by simp
    then show ?thesis by blast
  qed
  then obtain i where i: "i < length ts"
    and r: "scanTags ?fp (Split raw CHR 0x0A) ([], []) = Inr (langOf (ts ! i), patchOf (ts ! i))"
    and m: "\<forall>j < length ts. ?k (ts ! j) \<le> ?k (ts ! i)" "\<forall>j < i. ?k (ts ! j) < ?k (ts ! i)"
    by blast
  from i assms(6) have "patchOf (ts ! i) \<noteq> []" by (auto dest: IsValid_not_Nil)
  with assms(1-3) r have "readLatestPatchVersion e fr =
       (if langOf (ts ! i) = [] then Inl NoMatchingTag
        else Inr (fr\<lparr>Language := langOf (ts ! i), LatestPatchVersion := patchOf (ts ! i)\<rparr>))"
    by (simp add: readLatestPatchVersion_def)
  with i r m show ?thesis by blast
qed

theorem C1_latest_patch_is_maximum_witness:
  "readLatestPatchVersion demo_env demo_branch =
     Inr (demo_branch\<lparr>Language := ''go'', LatestPatchVersion := ''v1.0.10''\<rparr>) \<and>
   (\<exists>i < length demo_tags.
     scanTags (FunctionName demo_branch @ ''/'' @ MinorVersion demo_branch)
       (Split ''functions/go/apply-setters/v1.0.1\<newline>functions/go/apply-setters/v1.0.10\<newline>functions/go/apply-setters/v1.0.2\<newline>'' CHR 0x0A) ([], []) =
       Inr (langOf (demo_tags ! i), patchOf (demo_tags ! i)) \<and>
     readLatestPatchVersion demo_env demo_branch =
       (if langOf (demo_tags ! i) = [] then Inl NoMatchingTag
        else Inr (demo_branch\<lparr>Language := langOf (demo_tags ! i),
                               LatestPatchVersion := patchOf (demo_tags ! i)\<rparr>)) \<and>
     (\<forall>j < length demo_tags.
        precedence (patchOf (demo_tags ! j)) \<le> precedence (patchOf (demo_tags ! i))) \<and>
     (\<forall>j < i. precedence (patchOf (demo_tags ! j)) < precedence (patchOf (demo_tags ! i)))) \<and>
   readLatestPatchVersion
     (demo_env\<lparr>gitTag := Inr ''functions/go/apply-setters/v1.0.2-rc1\<newline>functions/go/apply-setters/v1.0.1\<newline>functions/go/apply-setters/v1.0.2''\<rparr>)
     demo_branch =
     Inr (demo_branch\<lparr>Language := ''go'', LatestPatchVersion := ''v1.0.2''\<rparr>) \<and>
   (\<exists>i < length prerelease_tags.
     scanTags (FunctionName demo_branch @ ''/'' @ MinorVersion demo_branch)
       (Split ''functions/go/apply-setters/v1.0.2-rc1\<newline>functions/go/apply-setters/v1.0.1\<newline>functions/go/apply-setters/v1.0.2'' CHR 0x0A) ([], []) =
       Inr (langOf (prerelease_tags ! i), patchOf (prerelease_tags ! i)) \<and>
     readLatestPatchVersion
       (demo_env\<lparr>gitTag := Inr ''functions/go/apply-setters/v1.0.2-rc1\<newline>functions/go/apply-setters/v1.0.1\<newline>functions/go/apply-setters/v1.0.2''\<rparr>)
       demo_branch =
       (if langOf (prerelease_tags ! i) = [] then Inl NoMatchingTag
        else Inr (demo_branch\<lparr>Language := langOf (prerelease_tags ! i),
                               LatestPatchVersion := patchOf (prerelease_tags ! i)\<rparr>)) \<and>
     (\<forall>j < length prerelease_tags.
        precedence (patchOf (prerelease_tags ! j)) \<le> precedence (patchOf (prerelease_tags ! i))) \<and>
     (\<forall>j < i. precedence (patchOf (prerelease_tags ! j)) <
               precedence (patchOf (prerelease_tags ! i))))"
proof -
  let ?raw = "''functions/go/apply-setters/v1.0.2-rc1\<newline>functions/go/apply-setters/v1.0.1\<newline>functions/go/apply-setters/v1.0.2''"
  have 1: "FunctionName demo_branch \<noteq> []" "MinorVersion demo_branch \<noteq> []"
    by (simp_all add: demo_branch_def)
  have 3: "gitTag demo_env = Inr ''functions/go/apply-setters/v1.0.1\<newline>functions/go/apply-setters/v1.0.10\<newline>functions/go/apply-setters/v1.0.2\<newline>''"
    by (simp add: demo_env_def)
  have 4: "demo_tags = filter (survives (FunctionName demo_branch @ ''/'' @ MinorVersion demo_branch))
      (Split ''functions/go/apply-setters/v1.0.1\<newline>functions/go/apply-setters/v1.0.10\<newline>functions/go/apply-setters/v1.0.2\<newline>'' CHR 0x0A)"
    by code_simp
  have 5: "demo_tags \<noteq> []" by (simp add: demo_tags_def)
  have 6: "\<forall>t \<in> set demo_tags. IsValid (patchOf t)" by code_simp
  have r: "readLatestPatchVersion demo_env demo_branch =
     Inr (demo_branch\<lparr>Language := ''go'', LatestPatchVersion := ''v1.0.10''\<rparr>)"
    by code_simp
  have p3: "gitTag (demo_env\<lparr>gitTag := Inr ?raw\<rparr>) = Inr ?raw" by simp
  have p4: "prerelease_tags =
      filter (survives (FunctionName demo_branch @ ''/'' @ MinorVersion demo_branch))
        (Split ?raw CHR 0x0A)"
    by code_simp
  have p5: "prerelease_tags \<noteq> []" by (simp add: prerelease_tags_def)
  have p6: "\<forall>t \<in> set prerelease_tags. IsValid (patchOf t)" by code_simp
  have pr: "readLatestPatchVersion (demo_env\<lparr>gitTag := Inr ?raw\<rparr>) demo_branch =
     Inr (demo_branch\<lparr>Language := ''go'', LatestPatchVersion := ''v1.0.2''\<rparr>)"
    by code_simp
  from r C1_latest_patch_is_maximum[OF 1 3 4 5 6]
    pr C1_latest_patch_is_maximum[OF 1 p3 p4 p5 p6]
  show ?thesis by (intro conjI)
qed

text \<open>
  Against claim C1 as it is worded: \<^verbatim>\<open>semver\<close> refuses a number with a leading zero,
  two refused versions compare as equal, and the first of them is kept although the second
  has the greater patch number.
\<close>

theorem C1_counterexample:
  "readLatestPatchVersion
     (demo_env\<lparr>gitTag := Inr ''functions/go/apply-setters/v1.0.01\<newline>functions/go/apply-setters/v1.0.02\<newline>''\<rparr>)
     demo_branch =
   Inr (demo_branch\<lparr>Language := ''go'', LatestPatchVersion := ''v1.0.01''\<rparr>)"
  by code_simp

text \<open>
  Claim C9. When no tag survives the filter, \<open>readLatestPatchVersion\<close> returns the
  no-matching-tag error; \<open>newFunctionRelease\<close> returns it without a release, and \<open>main\<close>
  exits with it and leaves the checked-out tree as it is: no file is read or written (the
  log of reads and writes is part of the tree).
\<close>

theorem C9_no_matching_release:
  assumes "FunctionName fr \<noteq> []" "MinorVersion fr \<noteq> []" "gitTag e = Inr raw"
    and "\<forall>tag \<in> set (Split raw CHR 0x0A).
           \<not> survives (FunctionName fr @ ''/'' @ MinorVersion fr) tag"
  shows "readLatestPatchVersion e fr = Inl NoMatchingTag \<and>
    (branchFields branch = Inr fr \<longrightarrow>
       newFunctionRelease e branch fs = (Inl NoMatchingTag, fs)) \<and>
    (branchFields branch = Inr fr \<and> 2 \<le> length args \<and> args ! 1 = branch \<and>
       isCleanRepo e fs0 \<and> gitFetch e = None \<and> gitCheckout e branch fs0 = Inr fs \<longrightarrow>
       main e args fs0 = (Some NoMatchingTag, fs))"
proof -
  have scan: "scanTags (FunctionName fr @ ''/'' @ MinorVersion fr) (Split raw CHR 0x0A) ([], []) =
      Inr ([], [])"
    using assms(4) by (rule scanTags_no_survivor)
  with assms(1-3) have r: "readLatestPatchVersion e fr = Inl NoMatchingTag"
    by (simp add: readLatestPatchVersion_def)
  then have n: "branchFields branch = Inr fr \<longrightarrow>
      newFunctionRelease e branch fs = (Inl NoMatchingTag, fs)"
    by (simp add: newFunctionRelease_def)
  then have "branchFields branch = Inr fr \<and> 2 \<le> length args \<and> args ! 1 = branch \<and>
       isCleanRepo e fs0 \<and> gitFetch e = None \<and> gitCheckout e branch fs0 = Inr fs \<longrightarrow>
       main e args fs0 = (Some NoMatchingTag, fs)"
    by (auto simp: main_def)
  with r n show ?thesis by blast
qed

theorem C9_no_matching_release_witness:
  "readLatestPatchVersion demo_env
     (zeroRelease\<lparr>MinorVersion := ''v2.0'', FunctionName := ''apply-setters''\<rparr>) =
     Inl NoMatchingTag \<and>
   newFunctionRelease demo_env ''origin/apply-setters/v2.0'' demo_fs =
     (Inl NoMatchingTag, demo_fs) \<and>
   main demo_env [''update_function_docs'', ''origin/apply-setters/v2.0''] demo_fs =
     (Some NoMatchingTag, demo_fs)"
proof -
  let ?fr = "zeroRelease\<lparr>MinorVersion := ''v2.0'', FunctionName := ''apply-setters''\<rparr>"
  have 1: "FunctionName ?fr \<noteq> []" "MinorVersion ?fr \<noteq> []" by simp_all
  have 3: "gitTag demo_env = Inr ''functions/go/apply-setters/v1.0.1\<newline>functions/go/apply-setters/v1.0.10\<newline>functions/go/apply-setters/v1.0.2\<newline>''"
    by (simp add: demo_env_def)
  have 4: "\<forall>tag \<in> set (Split ''functions/go/apply-setters/v1.0.1\<newline>functions/go/apply-setters/v1.0.10\<newline>functions/go/apply-setters/v1.0.2\<newline>'' CHR 0x0A).
           \<not> survives (FunctionName ?fr @ ''/'' @ MinorVersion ?fr) tag"
    by code_simp
  have b: "branchFields ''origin/apply-setters/v2.0'' = Inr ?fr" by code_simp
  have c: "isCleanRepo demo_env demo_fs" "gitFetch demo_env = None"
    "gitCheckout demo_env ''origin/apply-setters/v2.0'' demo_fs = Inr demo_fs"
    by (simp_all add: demo_env_def)
  show ?thesis
    using C9_no_matching_release[OF 1 3 4, of "''origin/apply-setters/v2.0''" demo_fs
        "[''update_function_docs'', ''origin/apply-setters/v2.0'']" demo_fs] b c
    by simp
qed

section \<open>Replacing the leftmost matches\<close>

lemma rmatch_shorter:
  assumes "[] \<notin> regex_lang r" "(g, s') \<in> set (rmatch r s)"
  shows "length s' < length s"
proof -
  from assms(2) obtain m where "m \<in> regex_lang r" "s = m @ s'"
    using rmatch_iff[of s' r s] by blast
  with assms(1) show ?thesis by (cases m) auto
qed

lemma find_first_Cons_nomatch:
  "rmatch r (c # cs) = [] \<Longrightarrow>
   find_first r (c # cs) = map_option (\<lambda>(pre, m, g, s'). (c # pre, m, g, s')) (find_first r cs)"
  by simp

lemma ReplaceAll_from_nomatch:
  assumes "rmatch r (c # cs) = []"
  shows "ReplaceAll_from r t b (c # cs) = c # ReplaceAll_from r t False cs"
proof (cases "find_first r cs")
  case None
  with assms show ?thesis by simp
next
  case (Some x)
  obtain pre m g rest where x: "x = (pre, m, g, rest)" by (cases x)
  with Some assms have "find_first r (c # cs) = Some (c # pre, m, g, rest)" by simp
  then show ?thesis
    using Some x
    by (subst ReplaceAll_from.simps, subst (2) ReplaceAll_from.simps) simp
qed

lemma ReplaceAll_from_match:
  assumes "rmatch r s = (g, s') # xs" "[] \<notin> regex_lang r"
  shows "ReplaceAll_from r t b s =
    Expand t (take (length s - length s') s # g) @ ReplaceAll_from r t True s'"
proof -
  from assms have l: "length s' < length s" by (auto intro: rmatch_shorter[of r g s' s])
  then obtain c cs where s: "s = c # cs" by (cases s) auto
  with assms have f: "find_first r s = Some ([], take (length s - length s') s, g, s')" by simp
  from l have "take (length s - length s') s \<noteq> []" by auto
  with f show ?thesis by (subst ReplaceAll_from.simps) simp
qed

lemma rmatch_hd_lang:
  assumes "rmatch r s = (g, s') # xs"
  shows "take (length s - length s') s \<in> regex_lang r \<and> s = take (length s - length s') s @ s'"
proof -
  from assms have "(g, s') \<in> set (rmatch r s)" by simp
  then obtain m where "m \<in> regex_lang r" "s = m @ s'"
    using rmatch_iff[of s' r s] by blast
  then show ?thesis by simp
qed

lemma find_first_lang:
  "find_first r s = Some (pre, m, g, rest) \<Longrightarrow> m \<in> regex_lang r"
proof (induction s arbitrary: pre)
  case Nil
  then obtain xs where "rmatch r [] = (g, rest) # xs" "m = []"
    by (auto split: list.splits)
  then show ?case using rmatch_hd_lang[of r "[]" g rest xs] by simp
next
  case (Cons c cs)
  show ?case
  proof (cases "rmatch r (c # cs)")
    case Nil
    with Cons.prems obtain pre' where "find_first r cs = Some (pre', m, g, rest)"
      by (auto split: option.splits)
    then show ?thesis by (rule Cons.IH)
  next
    case (Cons x xs)
    obtain g' s' where x: "x = (g', s')" by (cases x)
    with Cons Cons.prems have "m = take (length (c # cs) - length s') (c # cs)" by auto
    with Cons x show ?thesis using rmatch_hd_lang[of r "c # cs" g' s' xs] by simp
  qed
qed

lemma ReplaceAll_from_flag:
  assumes "[] \<notin> regex_lang r"
  shows "ReplaceAll_from r t b s = ReplaceAll_from r t False s"
proof (cases "find_first r s")
  case None
  then show ?thesis by simp
next
  case (Some x)
  obtain pre m g rest where x: "x = (pre, m, g, rest)" by (cases x)
  have "m \<noteq> []"
  proof
    assume "m = []"
    moreover from Some x have "m \<in> regex_lang r" by (auto dest: find_first_lang)
    ultimately show False using assms by simp
  qed
  with Some x show ?thesis
    by (subst ReplaceAll_from.simps, subst (2) ReplaceAll_from.simps) simp
qed

lemma ReplaceAll_Nil: "[] \<notin> regex_lang r \<Longrightarrow> ReplaceAll r t [] = []"
proof -
  assume "[] \<notin> regex_lang r"
  then have "rmatch r [] = []" by (simp add: rmatch_Nil_iff)
  then show ?thesis by (simp add: ReplaceAll_def)
qed

lemma ReplaceAll_nomatch:
  "first_match r (c # cs) = None \<Longrightarrow> ReplaceAll r t (c # cs) = c # ReplaceAll r t cs"
  unfolding ReplaceAll_def first_match_def
  by (rule ReplaceAll_from_nomatch) (cases "rmatch r (c # cs)", simp_all)

lemma ReplaceAll_match:
  assumes "first_match r s = Some (g, s')" "[] \<notin> regex_lang r"
  shows "ReplaceAll r t s = Expand t (take (length s - length s') s # g) @ ReplaceAll r t s'"
proof -
  from assms(1) obtain xs where "rmatch r s = (g, s') # xs"
    by (cases "rmatch r s") (auto simp: first_match_def)
  from ReplaceAll_from_match[OF this assms(2)] show ?thesis
    unfolding ReplaceAll_def using ReplaceAll_from_flag[OF assms(2), of t True s'] by simp
qed

text \<open>First matches, pattern by pattern.\<close>

lemma first_match_Lit:
  "first_match (Lit l) s = (if HasPrefix s l then Some ([], drop (length l) s) else None)"
  by (simp add: first_match_def)

lemma first_of_append:
  "first_of (xs @ ys) = (case first_of xs of Some x \<Rightarrow> Some x | None \<Rightarrow> first_of ys)"
  by (cases xs) auto

lemma first_of_map: "first_of (map f xs) = map_option f (first_of xs)"
  by (cases xs) auto

lemma first_of_concat: "first_of (concat (map F xs)) = first_some (\<lambda>x. first_of (F x)) xs"
  by (induction xs) (auto simp: first_of_append split: option.splits)

lemma first_match_Cat:
  "first_match (Cat r1 r2) s =
     first_some (\<lambda>(g1, s1). map_option (\<lambda>(g2, s2). (g1 @ g2, s2)) (first_match r2 s1))
       (rmatch r1 s)"
proof -
  have "(\<lambda>x. first_of (case x of (g1, s1) \<Rightarrow> map (\<lambda>(g2, s2). (g1 @ g2, s2)) (rmatch r2 s1))) =
        (\<lambda>(g1, s1). map_option (\<lambda>(g2, s2). (g1 @ g2, s2)) (first_match r2 s1))"
    by (auto simp: first_match_def first_of_map)
  then show ?thesis by (simp add: first_match_def first_of_concat)
qed

lemma first_match_Lit_Cat:
  "first_match (Cat (Lit l) r) s = (if HasPrefix s l then first_match r (drop (length l) s) else None)"
  by (simp add: first_match_Cat option.map_ident split: option.splits)

lemma first_match_Alt:
  "first_match (Alt r1 r2) s =
     (case first_match r1 s of
        Some (g, s') \<Rightarrow> Some (g @ replicate (ngroups r2) [], s')
      | None \<Rightarrow> map_option (\<lambda>(g, s'). (replicate (ngroups r1) [] @ g, s')) (first_match r2 s))"
  by (cases "rmatch r1 s") (auto simp: first_match_def first_of_append first_of_map)

lemma first_match_Grp:
  "first_match (Grp r) s =
     map_option (\<lambda>(g, s'). (take (length s - length s') s # g, s')) (first_match r s)"
  by (simp add: first_match_def first_of_map)

lemma star_rests_hd: "\<exists>xs. star_rests k s = dropWhile (in_class k) s # xs"
proof (induction s)
  case Nil
  then show ?case by simp
next
  case (Cons c cs)
  then show ?case by auto
qed

lemma first_match_Star: "first_match (Star k) s = Some ([], dropWhile (in_class k) s)"
  using star_rests_hd[of k s] by (auto simp: first_match_def)

lemma rmatch_Star_Cat:
  assumes "\<And>c cs. in_class k c \<Longrightarrow> rmatch r (c # cs) = []"
  shows "rmatch (Cat (Star k) r) s = rmatch r (dropWhile (in_class k) s)"
proof (induction s)
  case Nil
  then show ?case by simp
next
  case (Cons c cs)
  then show ?case using assms[of c cs] by simp
qed

lemma rmatch_Star_Lit_Cat:
  assumes "\<not> in_class k x"
  shows "rmatch (Cat (Star k) (Cat (Lit (x # l)) r)) s =
         rmatch (Cat (Lit (x # l)) r) (dropWhile (in_class k) s)"
proof (rule rmatch_Star_Cat)
  fix c cs assume "in_class k c"
  with assms have "c \<noteq> x" by auto
  then show "rmatch (Cat (Lit (x # l)) r) (c # cs) = []" by (simp add: HasPrefix_def)
qed

lemma first_match_Star_Lit_Cat:
  "\<not> in_class k x \<Longrightarrow>
   first_match (Cat (Star k) (Cat (Lit (x # l)) r)) s =
   first_match (Cat (Lit (x # l)) r) (dropWhile (in_class k) s)"
  unfolding first_match_def using rmatch_Star_Lit_Cat[of k x l r s] by simp

section \<open>Version tokens\<close>

lemma HasPrefix_decomp: "HasPrefix s p \<Longrightarrow> s = p @ drop (length p) s"
  unfolding HasPrefix_def by (metis append_take_drop_id)

lemma versionToken_decomp:
  assumes "versionToken s = Some (tok, rest)"
  shows "s = tok @ rest"
proof (cases "HasPrefix s ''unstable''")
  case True
  then have "s = ''unstable'' @ drop (length ''unstable'') s" by (rule HasPrefix_decomp)
  moreover from True assms have "tok = ''unstable''" "rest = drop (length ''unstable'') s"
    by (auto simp: versionToken_def)
  ultimately show ?thesis by simp
next
  case False
  let ?s1 = "drop 1 s"
  let ?s2 = "dropWhile isDigit ?s1"
  let ?s3 = "drop 1 ?s2"
  let ?s4 = "dropWhile isDigit ?s3"
  from False assms have v: "HasPrefix s ''v''" and d: "HasPrefix ?s2 ''.''"
    by (auto simp: versionToken_def Let_def split: if_splits)
  have 1: "s = ''v'' @ ?s1" using HasPrefix_decomp[OF v] by simp
  have 2: "?s1 = takeWhile isDigit ?s1 @ ?s2" by simp
  have 3: "?s2 = ''.'' @ ?s3" using HasPrefix_decomp[OF d] by simp
  have 4: "?s3 = takeWhile isDigit ?s3 @ ?s4" by simp
  have s: "s = ''v'' @ takeWhile isDigit ?s1 @ ''.'' @ takeWhile isDigit ?s3 @ ?s4"
    using 1 2 3 4 by (metis append_assoc)
  show ?thesis
  proof (cases "HasPrefix ?s4 ''.''")
    case True
    have 5: "?s4 = ''.'' @ drop 1 ?s4" using HasPrefix_decomp[OF True] by simp
    have 6: "drop 1 ?s4 = takeWhile isDigit (drop 1 ?s4) @ dropWhile isDigit (drop 1 ?s4)" by simp
    have big: "s = (''v'' @ takeWhile isDigit ?s1 @ ''.'' @ takeWhile isDigit ?s3 @ ''.'' @
       takeWhile isDigit (drop 1 ?s4)) @ dropWhile isDigit (drop 1 ?s4)"
      using s 5 6 by (metis append_assoc)
    from assms False v d True have
      tok: "tok = ''v'' @ takeWhile isDigit ?s1 @ ''.'' @ takeWhile isDigit ?s3 @ ''.'' @
       takeWhile isDigit (drop 1 ?s4)"
      and rest: "rest = dropWhile isDigit (drop 1 ?s4)"
      by (auto simp: versionToken_def Let_def)
    show ?thesis unfolding tok rest using big .
  next
    case F: False
    from assms False v d F have
      tok: "tok = ''v'' @ takeWhile isDigit ?s1 @ ''.'' @ takeWhile isDigit ?s3"
      and rest: "rest = ?s4"
      by (auto simp: versionToken_def Let_def)
    show ?thesis unfolding tok rest using s by (simp only: append_assoc)
  qed
qed

lemma first_match_versionGroup:
  "first_match versionGroup s = map_option (\<lambda>(tok, rest). ([], rest)) (versionToken s)"
  unfolding versionGroup_def Seq.simps versionToken_def
  by (simp add: first_match_Alt first_match_Lit first_match_Lit_Cat first_match_Star_Lit_Cat
      first_match_Star in_class_Digit Let_def isDigit_def)

section \<open>The tag rule and the catalog rule\<close>

lemma HasPrefix_take: "HasPrefix s p \<Longrightarrow> take (length p) s = p"
  by (simp add: HasPrefix_def)

lemma ngroups_versionGroup: "ngroups versionGroup = 0"
  by (simp add: versionGroup_def)

lemma versionToken_take:
  "versionToken s = Some (tok, rest) \<Longrightarrow> take (length s - length rest) s = tok"
  by (drule versionToken_decomp) simp

lemma rmatch_Grp_Lit:
  "rmatch (Grp (Lit l)) s = (if HasPrefix s l then [([l], drop (length l) s)] else [])"
proof (cases "HasPrefix s l")
  case True
  then have "s = l @ drop (length l) s" by (rule HasPrefix_decomp)
  then have "length s - length (drop (length l) s) = length l"
    by (metis add_diff_cancel_right' length_append)
  with True show ?thesis by (simp add: HasPrefix_take)
next
  case False
  then show ?thesis by simp
qed

lemma rmatch_separator:
  "rmatch (Grp (Alt (Lit '':'') (Lit ''/''))) s =
     (case s of [] \<Rightarrow> []
      | c # cs \<Rightarrow> if c = CHR '':'' \<or> c = CHR ''/'' then [([[c]], cs)] else [])"
  by (cases s) (auto simp: HasPrefix_def)

lemma first_match_Grp_versionGroup:
  "first_match (Grp versionGroup) s = map_option (\<lambda>(tok, rest). ([tok], rest)) (versionToken s)"
proof (cases "versionToken s")
  case None
  then show ?thesis by (simp add: first_match_Grp first_match_versionGroup)
next
  case (Some x)
  obtain tok rest where x: "x = (tok, rest)" by (cases x)
  with Some have "take (length s - length rest) s = tok" by (simp add: versionToken_take)
  with Some x show ?thesis by (simp add: first_match_Grp first_match_versionGroup)
qed

lemma first_some_Nil: "first_some f [] = None"
  by simp

lemma first_some_single: "first_some f [x] = f x"
  by (simp split: option.splits)

lemma first_match_tagPattern:
  "first_match (tagPattern fn) s =
     map_option (\<lambda>(sep, tok, rest). ([fn, [sep], tok], rest)) (tagReferenceAt fn s)"
proof (cases "HasPrefix s fn")
  case False
  then show ?thesis
    unfolding Seq.simps first_match_Cat rmatch_Grp_Lit tagReferenceAt_def
    by (simp only: if_False if_True first_some_Nil not_False_eq_True option.map)
next
  case True
  let ?s1 = "drop (length fn) s"
  have step: "first_match (tagPattern fn) s =
     map_option (\<lambda>(g2, s2). ([fn] @ g2, s2))
       (first_some (\<lambda>(g1, s1). map_option (\<lambda>(g2, s2). (g1 @ g2, s2))
           (first_match (Grp versionGroup) s1))
         (rmatch (Grp (Alt (Lit '':'') (Lit ''/''))) ?s1))"
    using True
    unfolding Seq.simps first_match_Cat[of "Grp (Lit fn)"] rmatch_Grp_Lit
    by (simp only: if_True first_some_single prod.case first_match_Cat)
  show ?thesis
  proof (cases ?s1)
    case Nil
    with True show ?thesis unfolding step rmatch_separator tagReferenceAt_def by simp
  next
    case (Cons sep s')
    show ?thesis
    proof (cases "sep = CHR '':'' \<or> sep = CHR ''/''")
      case False
      with True Cons show ?thesis unfolding step rmatch_separator tagReferenceAt_def by simp
    next
      case sep: True
      with True Cons show ?thesis
        unfolding step rmatch_separator tagReferenceAt_def first_match_Grp_versionGroup
        by (cases "versionToken s'") (auto split: option.splits)
    qed
  qed
qed

lemma HasPrefix_append:
  "HasPrefix s (a @ b) \<longleftrightarrow> HasPrefix s a \<and> HasPrefix (drop (length a) s) b"
proof
  assume "HasPrefix s (a @ b)"
  then have "s = (a @ b) @ drop (length (a @ b)) s" by (rule HasPrefix_decomp)
  then obtain r where "s = a @ b @ r" by (metis append_assoc)
  then show "HasPrefix s a \<and> HasPrefix (drop (length a) s) b" by (simp add: HasPrefix_def)
next
  assume h: "HasPrefix s a \<and> HasPrefix (drop (length a) s) b"
  then have "s = a @ drop (length a) s" "drop (length a) s = b @ drop (length b) (drop (length a) s)"
    by (auto dest: HasPrefix_decomp)
  then obtain r where "s = a @ b @ r" by metis
  then show "HasPrefix s (a @ b)" by (simp add: HasPrefix_def)
qed

lemma HasPrefix_appendI: "HasPrefix (p @ s) p"
  by (simp add: HasPrefix_def)

lemma rmatch_Lit_Lit: "rmatch (Cat (Lit a) (Lit b)) s = rmatch (Lit (a @ b)) s"
  by (auto simp: HasPrefix_append add.commute)

lemma rmatch_Lit_Lit_Lit: "rmatch (Cat (Lit a) (Cat (Lit b) (Lit c))) s = rmatch (Lit (a @ b @ c)) s"
  by (auto simp: HasPrefix_append add.commute add.left_commute)

lemma rmatch_Grp_cong: "rmatch r s = rmatch r' s \<Longrightarrow> rmatch (Grp r) s = rmatch (Grp r') s"
  by simp

lemma first_match_urlPattern:
  "first_match (urlPattern fn) s =
     map_option (\<lambda>(tok, rest). ([''https://catalog.kpt.dev/'' @ fn @ ''/'', tok], rest))
       (catalogURLAt fn s)"
proof -
  let ?p = "''https://catalog.kpt.dev/'' @ fn @ ''/''"
  have g: "rmatch (Grp (Seq [Lit ''https://catalog.kpt.dev/'', Lit fn, Lit ''/''])) s =
      (if HasPrefix s ?p then [([?p], drop (length ?p) s)] else [])"
    unfolding Seq.simps rmatch_Grp_cong[OF rmatch_Lit_Lit_Lit] by (rule rmatch_Grp_Lit)
  show ?thesis
  proof (cases "HasPrefix s ?p")
    case False
    then show ?thesis
      unfolding Seq.simps(3)[of "Grp (Seq [Lit ''https://catalog.kpt.dev/'', Lit fn, Lit ''/''])"]
        Seq.simps(2) first_match_Cat g catalogURLAt_def
      by (simp only: if_False first_some_Nil option.map)
  next
    case True
    then show ?thesis
      unfolding Seq.simps(3)[of "Grp (Seq [Lit ''https://catalog.kpt.dev/'', Lit fn, Lit ''/''])"]
        Seq.simps(2) first_match_Cat g catalogURLAt_def first_match_Grp_versionGroup
      by (cases "versionToken (drop (length ?p) s)") (auto simp: first_some_single)
  qed
qed

lemma tagPattern_nonempty: "[] \<notin> regex_lang (tagPattern fn)"
  unfolding Seq.simps lang_Cat_iff lang_Grp_iff lang_Alt_iff lang_Lit_iff by auto

lemma urlPattern_nonempty: "[] \<notin> regex_lang (urlPattern fn)"
  unfolding Seq.simps lang_Cat_iff lang_Grp_iff lang_Lit_iff by auto

lemma tagReferenceAt_iff:
  "tagReferenceAt fn s = Some (sep, tok, rest) \<longleftrightarrow>
     (\<exists>s'. s = fn @ sep # s' \<and> (sep = CHR '':'' \<or> sep = CHR ''/'') \<and>
           versionToken s' = Some (tok, rest))"
proof
  assume a: "tagReferenceAt fn s = Some (sep, tok, rest)"
  then have p: "HasPrefix s fn" by (auto simp: tagReferenceAt_def split: if_splits)
  with a obtain s' where d: "drop (length fn) s = sep # s'"
    and "sep = CHR '':'' \<or> sep = CHR ''/''" "versionToken s' = Some (tok, rest)"
    by (auto simp: tagReferenceAt_def split: if_splits list.splits)
  moreover from p d have "s = fn @ sep # s'" using HasPrefix_decomp[of s fn] by simp
  ultimately show "\<exists>s'. s = fn @ sep # s' \<and> (sep = CHR '':'' \<or> sep = CHR ''/'') \<and>
           versionToken s' = Some (tok, rest)" by blast
next
  assume "\<exists>s'. s = fn @ sep # s' \<and> (sep = CHR '':'' \<or> sep = CHR ''/'') \<and>
           versionToken s' = Some (tok, rest)"
  then show "tagReferenceAt fn s = Some (sep, tok, rest)"
    by (auto simp: tagReferenceAt_def HasPrefix_def)
qed

lemma tagReferenceAt_None_iff:
  "tagReferenceAt fn s = None \<longleftrightarrow>
     \<not> (\<exists>sep s'. s = fn @ sep # s' \<and> (sep = CHR '':'' \<or> sep = CHR ''/'') \<and>
           versionToken s' \<noteq> None)"
proof -
  have "tagReferenceAt fn s \<noteq> None \<longleftrightarrow> (\<exists>sep tok rest. tagReferenceAt fn s = Some (sep, tok, rest))"
    by auto
  then show ?thesis unfolding tagReferenceAt_iff by auto
qed

lemma replaceTags_Nil: "replaceTags fr [] = []"
  unfolding replaceTags_def Let_def by (rule ReplaceAll_Nil) (rule tagPattern_nonempty)

lemma replaceTags_nomatch:
  "tagReferenceAt (FunctionName fr) (c # cs) = None \<Longrightarrow>
   replaceTags fr (c # cs) = c # replaceTags fr cs"
  unfolding replaceTags_def Let_def
  by (rule ReplaceAll_nomatch) (simp only: first_match_tagPattern option.map)

lemma replaceTags_match:
  assumes "tagReferenceAt (FunctionName fr) s = Some (sep, tok, rest)"
  shows "replaceTags fr s =
    FunctionName fr @ sep # LatestPatchVersion fr @ replaceTags fr rest"
proof -
  from assms have "first_match (tagPattern (FunctionName fr)) s =
      Some ([FunctionName fr, [sep], tok], rest)"
    by (simp only: first_match_tagPattern option.map prod.case)
  from ReplaceAll_match[OF this tagPattern_nonempty] show ?thesis
    unfolding replaceTags_def Let_def by simp
qed

lemma replaceURLs_Nil: "replaceURLs fr [] = []"
  unfolding replaceURLs_def Let_def by (rule ReplaceAll_Nil) (rule urlPattern_nonempty)

lemma replaceURLs_nomatch:
  "catalogURLAt (FunctionName fr) (c # cs) = None \<Longrightarrow>
   replaceURLs fr (c # cs) = c # replaceURLs fr cs"
  unfolding replaceURLs_def Let_def
  by (rule ReplaceAll_nomatch) (simp only: first_match_urlPattern option.map)

lemma replaceURLs_match:
  assumes "catalogURLAt (FunctionName fr) s = Some (tok, rest)"
  shows "replaceURLs fr s =
    ''https://catalog.kpt.dev/'' @ FunctionName fr @ ''/'' @ MinorVersion fr @ replaceURLs fr rest"
proof -
  from assms have "first_match (urlPattern (FunctionName fr)) s =
      Some ([''https://catalog.kpt.dev/'' @ FunctionName fr @ ''/'', tok], rest)"
    by (simp only: first_match_urlPattern option.map prod.case)
  from ReplaceAll_match[OF this urlPattern_nonempty] show ?thesis
    unfolding replaceURLs_def Let_def by simp
qed

section \<open>The tag rule on its own result\<close>

lemma not_word_sep: "\<not> in_class WordOrHyphen CHR '':''" "\<not> in_class WordOrHyphen CHR ''/''"
  by simp_all

lemma plainName_sepfree: "plainName n \<Longrightarrow> sepfree n"
  unfolding plainName_def sepfree_def list_all_iff using not_word_sep by blast

lemma dropWhile_all: "list_all P a \<Longrightarrow> \<not> P x \<Longrightarrow> dropWhile P (a @ x # y) = x # y"
  by (induction a) auto

lemma takeWhile_all: "list_all P a \<Longrightarrow> \<not> P x \<Longrightarrow> takeWhile P (a @ x # y) = a"
  by (induction a) auto

lemma dropWhile_all_end: "list_all P a \<Longrightarrow> dropWhile P (a @ y) = dropWhile P y"
  by (induction a) auto

lemma takeWhile_all_end: "list_all P a \<Longrightarrow> takeWhile P (a @ y) = a @ takeWhile P y"
  by (induction a) auto

lemma not_digit_dot: "\<not> isDigit CHR ''.''"
  by (simp add: isDigit_def)

lemma fullMatch_iff: "fullMatch r s \<longleftrightarrow> s \<in> regex_lang r"
proof -
  have "fullMatch r s \<longleftrightarrow> (\<exists>g. (g, []) \<in> set (rmatch r s))"
    by (auto simp: fullMatch_def list_ex_iff)
  then show ?thesis using rmatch_iff[of "[]" r s] by simp
qed

lemma isFullVersion_decomp:
  assumes "isFullVersion p"
  shows "\<exists>a b c. p = ''v'' @ a @ ''.'' @ b @ ''.'' @ c \<and>
           list_all isDigit a \<and> list_all isDigit b \<and> list_all isDigit c"
  using assms unfolding isFullVersion_def fullMatch_iff Seq.simps lang_iffs in_class_Digit
  by blast

lemma versionToken_fullVersion:
  assumes "isFullVersion p" "x = [] \<or> \<not> isDigit (hd x)"
  shows "versionToken (p @ x) = Some (p, x)"
proof -
  from assms(1) obtain a b c where p: "p = ''v'' @ a @ ''.'' @ b @ ''.'' @ c"
    and d: "list_all isDigit a" "list_all isDigit b" "list_all isDigit c"
    using isFullVersion_decomp by blast
  from assms(2) have x: "dropWhile isDigit x = x" "takeWhile isDigit x = []"
    by (cases x; simp)+
  have a: "dropWhile isDigit (a @ CHR ''.'' # y) = CHR ''.'' # y"
    "takeWhile isDigit (a @ CHR ''.'' # y) = a" for y
    using d(1) not_digit_dot by (simp_all add: dropWhile_all takeWhile_all)
  have b: "dropWhile isDigit (b @ CHR ''.'' # y) = CHR ''.'' # y"
    "takeWhile isDigit (b @ CHR ''.'' # y) = b" for y
    using d(2) not_digit_dot by (simp_all add: dropWhile_all takeWhile_all)
  have c: "dropWhile isDigit (c @ x) = x" "takeWhile isDigit (c @ x) = c"
    using d(3) x by (simp_all add: dropWhile_all_end takeWhile_all_end)
  show ?thesis
    unfolding p versionToken_def by (simp add: HasPrefix_def a b c)
qed

lemma HasPrefix_Nil [simp]: "HasPrefix s []"
  by (simp add: HasPrefix_def)

lemma HasPrefix_Cons: "HasPrefix (c # cs) (x # w) \<longleftrightarrow> c = x \<and> HasPrefix cs w"
  by (auto simp: HasPrefix_def)

lemma HasPrefix_Nil_left: "HasPrefix [] w \<longleftrightarrow> w = []"
  by (auto simp: HasPrefix_def)

lemma HasPrefix_append_same: "HasPrefix (u @ s) (u @ w) \<longleftrightarrow> HasPrefix s w"
  by (induction u) (auto simp: HasPrefix_Cons)

text \<open>Two texts that start with the same separator-free word and a separator.\<close>

lemma first_separator:
  assumes "HasPrefix (u @ a # x) (w @ [b])" "sepfree u" "sepfree w"
    "a = CHR '':'' \<or> a = CHR ''/''" "b = CHR '':'' \<or> b = CHR ''/''"
  shows "u = w \<and> a = b"
  using assms
proof (induction u arbitrary: w)
  case Nil
  then show ?case by (cases w) (auto simp: HasPrefix_Cons sepfree_def)
next
  case (Cons c u)
  show ?case
  proof (cases w)
    case Nil
    with Cons.prems show ?thesis by (auto simp: HasPrefix_Cons sepfree_def)
  next
    case (Cons d w')
    with Cons.prems have "c = d" "HasPrefix (u @ a # x) (w' @ [b])" "sepfree u" "sepfree w'"
      by (auto simp: HasPrefix_Cons sepfree_def)
    with Cons.IH[of w'] Cons.prems(4,5) Cons show ?thesis by simp
  qed
qed

lemma sepfree_prefix:
  assumes "HasPrefix (u @ a # x) w" "sepfree w" "a = CHR '':'' \<or> a = CHR ''/''"
  shows "HasPrefix u w"
  using assms
proof (induction u arbitrary: w)
  case Nil
  then show ?case by (cases w) (auto simp: HasPrefix_Cons sepfree_def)
next
  case (Cons c u)
  then show ?case by (cases w) (auto simp: HasPrefix_Cons sepfree_def)
qed

lemma HasPrefix_weaken:
  assumes "HasPrefix u w"
  shows "HasPrefix (u @ x) w"
proof -
  from assms obtain r where "u = w @ r" using HasPrefix_decomp by blast
  then have "u @ x = w @ (r @ x)" by simp
  then show ?thesis by (simp only: HasPrefix_appendI)
qed

lemma tagReferenceAt_SomeD:
  "tagReferenceAt fn s = Some (sep, tok, rest) \<Longrightarrow>
   \<exists>s'. s = fn @ sep # s' \<and> (sep = CHR '':'' \<or> sep = CHR ''/'') \<and>
        versionToken s' = Some (tok, rest)"
  by (simp only: tagReferenceAt_iff)

lemma replaceTags_prefix:
  assumes "sepfree (FunctionName fr)"
  shows "sepfree w \<Longrightarrow> HasPrefix (replaceTags fr x) w \<Longrightarrow> HasPrefix x w"
proof (induction x arbitrary: w)
  case Nil
  then show ?case by (simp add: replaceTags_Nil)
next
  case (Cons c cs)
  show ?case
  proof (cases "tagReferenceAt (FunctionName fr) (c # cs)")
    case None
    then have f: "replaceTags fr (c # cs) = c # replaceTags fr cs" by (rule replaceTags_nomatch)
    show ?thesis
    proof (cases w)
      case Nil
      then show ?thesis by simp
    next
      case (Cons d w')
      with Cons.prems f have "c = d" "HasPrefix (replaceTags fr cs) w'" "sepfree w'"
        by (auto simp: HasPrefix_Cons sepfree_def)
      with Cons.IH[of w'] Cons show ?thesis by (simp add: HasPrefix_Cons)
    qed
  next
    case (Some x)
    obtain sep tok rest where x: "x = (sep, tok, rest)" by (cases x)
    with Some have "tagReferenceAt (FunctionName fr) (c # cs) = Some (sep, tok, rest)" by simp
    then obtain s' where s: "c # cs = FunctionName fr @ sep # s'"
      and sep: "sep = CHR '':'' \<or> sep = CHR ''/''"
      by (blast dest: tagReferenceAt_SomeD)
    from Some x have "replaceTags fr (c # cs) =
        FunctionName fr @ sep # LatestPatchVersion fr @ replaceTags fr rest"
      by (simp add: replaceTags_match)
    with Cons.prems sep have "HasPrefix (FunctionName fr) w" by (auto intro: sepfree_prefix)
    then show ?thesis unfolding s by (rule HasPrefix_weaken)
  qed
qed

lemma replaceTags_prefix_sep:
  assumes "sepfree (FunctionName fr)" "b = CHR '':'' \<or> b = CHR ''/''"
  shows "sepfree w \<Longrightarrow> HasPrefix (replaceTags fr x) (w @ [b]) \<Longrightarrow> HasPrefix x (w @ [b])"
proof (induction x arbitrary: w)
  case Nil
  then show ?case by (simp add: replaceTags_Nil HasPrefix_Nil_left)
next
  case (Cons c cs)
  show ?case
  proof (cases "tagReferenceAt (FunctionName fr) (c # cs)")
    case None
    then have f: "replaceTags fr (c # cs) = c # replaceTags fr cs" by (rule replaceTags_nomatch)
    show ?thesis
    proof (cases w)
      case Nil
      with Cons.prems f show ?thesis by (simp add: HasPrefix_Cons)
    next
      case (Cons d w')
      with Cons.prems f have "c = d" "HasPrefix (replaceTags fr cs) (w' @ [b])" "sepfree w'"
        by (auto simp: HasPrefix_Cons sepfree_def)
      with Cons.IH[of w'] Cons show ?thesis by (simp add: HasPrefix_Cons)
    qed
  next
    case (Some x)
    obtain sep tok rest where x: "x = (sep, tok, rest)" by (cases x)
    with Some have "tagReferenceAt (FunctionName fr) (c # cs) = Some (sep, tok, rest)" by simp
    then obtain s' where s: "c # cs = FunctionName fr @ sep # s'"
      and sep: "sep = CHR '':'' \<or> sep = CHR ''/''"
      by (blast dest: tagReferenceAt_SomeD)
    from Some x have "replaceTags fr (c # cs) =
        FunctionName fr @ sep # LatestPatchVersion fr @ replaceTags fr rest"
      by (simp add: replaceTags_match)
    with Cons.prems have "HasPrefix (FunctionName fr @ sep # LatestPatchVersion fr @
        replaceTags fr rest) (w @ [b])" by simp
    from first_separator[OF this assms(1) Cons.prems(1) sep assms(2)]
    have "FunctionName fr = w" "sep = b" by simp_all
    then have "c # cs = (w @ [b]) @ s'" using s by simp
    then show ?thesis by (simp only: HasPrefix_appendI)
  qed
qed

lemma no_reference_short:
  assumes "sepfree fn" "length u < length fn" "a = CHR '':'' \<or> a = CHR ''/''"
  shows "tagReferenceAt fn (u @ a # y) = None"
proof -
  have "\<not> HasPrefix (u @ a # y) fn"
  proof
    assume "HasPrefix (u @ a # y) fn"
    with assms have "HasPrefix u fn" by (auto intro: sepfree_prefix)
    then obtain r where "u = fn @ r" using HasPrefix_decomp by blast
    then have "length fn \<le> length u" by simp
    with assms(2) show False by simp
  qed
  then show ?thesis by (simp add: tagReferenceAt_def)
qed

lemma replaceTags_short:
  assumes "sepfree (FunctionName fr)" "a = CHR '':'' \<or> a = CHR ''/''"
  shows "length u < length (FunctionName fr) \<Longrightarrow>
    replaceTags fr (u @ a # y) = u @ a # replaceTags fr y"
proof (induction u)
  case Nil
  have "tagReferenceAt (FunctionName fr) ([] @ a # y) = None"
    using assms Nil by (intro no_reference_short) auto
  then show ?case by (simp add: replaceTags_nomatch)
next
  case (Cons c u)
  have "tagReferenceAt (FunctionName fr) ((c # u) @ a # y) = None"
    using assms Cons.prems by (intro no_reference_short) auto
  then have "replaceTags fr (c # u @ a # y) = c # replaceTags fr (u @ a # y)"
    by (simp add: replaceTags_nomatch)
  with Cons show ?case by simp
qed

lemma versionToken_Some_iff:
  "versionToken z \<noteq> None \<longleftrightarrow>
     HasPrefix z ''unstable'' \<or> (\<exists>a. list_all isDigit a \<and> HasPrefix z (''v'' @ a @ ''.''))"
proof
  assume a: "versionToken z \<noteq> None"
  show "HasPrefix z ''unstable'' \<or> (\<exists>a. list_all isDigit a \<and> HasPrefix z (''v'' @ a @ ''.''))"
  proof (cases "HasPrefix z ''unstable''")
    case True
    then show ?thesis by simp
  next
    case False
    let ?z1 = "drop 1 z"
    from a False have v: "HasPrefix z ''v''" and d: "HasPrefix (dropWhile isDigit ?z1) ''.''"
      by (auto simp: versionToken_def Let_def split: if_splits)
    have 1: "z = ''v'' @ ?z1" using HasPrefix_decomp[OF v] by simp
    have 2: "?z1 = takeWhile isDigit ?z1 @ dropWhile isDigit ?z1" by simp
    have 3: "dropWhile isDigit ?z1 = ''.'' @ drop 1 (dropWhile isDigit ?z1)"
      using HasPrefix_decomp[OF d] by simp
    have "z = (''v'' @ takeWhile isDigit ?z1 @ ''.'') @ drop 1 (dropWhile isDigit ?z1)"
      using 1 2 3 by (metis append_assoc)
    then have "HasPrefix z (''v'' @ takeWhile isDigit ?z1 @ ''.'')"
      by (metis HasPrefix_appendI)
    moreover have "list_all isDigit (takeWhile isDigit ?z1)"
      by (auto simp: list_all_iff dest: set_takeWhileD)
    ultimately show ?thesis by blast
  qed
next
  assume "HasPrefix z ''unstable'' \<or> (\<exists>a. list_all isDigit a \<and> HasPrefix z (''v'' @ a @ ''.''))"
  then show "versionToken z \<noteq> None"
  proof
    assume "HasPrefix z ''unstable''"
    then show ?thesis by (simp add: versionToken_def)
  next
    assume "\<exists>a. list_all isDigit a \<and> HasPrefix z (''v'' @ a @ ''.'')"
    then obtain a where a: "list_all isDigit a" and "HasPrefix z (''v'' @ a @ ''.'')" by blast
    then obtain r where z: "z = ''v'' @ a @ ''.'' @ r"
      using HasPrefix_decomp[of z "''v'' @ a @ ''.''"] by (metis append_assoc)
    have "dropWhile isDigit (a @ CHR ''.'' # r) = CHR ''.'' # r"
      using a not_digit_dot by (simp add: dropWhile_all)
    then show ?thesis unfolding z versionToken_def by (simp add: HasPrefix_def Let_def)
  qed
qed

lemma not_digit_sep: "\<not> isDigit CHR '':''" "\<not> isDigit CHR ''/''"
  by (simp_all add: isDigit_def)

lemma sepfree_digits:
  assumes "list_all isDigit a"
  shows "sepfree (''v'' @ a @ ''.'')"
proof -
  from assms have "CHR '':'' \<notin> set a" "CHR ''/'' \<notin> set a"
    unfolding list_all_iff using not_digit_sep by blast+
  then show ?thesis by (simp add: sepfree_def)
qed

lemma versionToken_replaceTags:
  assumes "sepfree (FunctionName fr)" "versionToken (replaceTags fr y) \<noteq> None"
  shows "versionToken y \<noteq> None"
proof -
  from assms(2) consider "HasPrefix (replaceTags fr y) ''unstable''"
    | a where "list_all isDigit a" "HasPrefix (replaceTags fr y) (''v'' @ a @ ''.'')"
    unfolding versionToken_Some_iff by blast
  then show ?thesis
  proof cases
    case 1
    have "sepfree ''unstable''" by (simp add: sepfree_def)
    from replaceTags_prefix[OF assms(1) this 1] show ?thesis
      unfolding versionToken_Some_iff by blast
  next
    case 2
    from replaceTags_prefix[OF assms(1) sepfree_digits[OF 2(1)] 2(2)] 2(1) show ?thesis
      unfolding versionToken_Some_iff by blast
  qed
qed

lemma replaceTags_hd:
  assumes "FunctionName fr \<noteq> []" "x = [] \<or> \<not> isDigit (hd x)"
  shows "replaceTags fr x = [] \<or> \<not> isDigit (hd (replaceTags fr x))"
proof (cases x)
  case Nil
  then show ?thesis by (simp add: replaceTags_Nil)
next
  case (Cons c cs)
  show ?thesis
  proof (cases "tagReferenceAt (FunctionName fr) (c # cs)")
    case None
    with assms Cons show ?thesis by (simp add: replaceTags_nomatch)
  next
    case (Some y)
    obtain sep tok rest where y: "y = (sep, tok, rest)" by (cases y)
    with Some have "tagReferenceAt (FunctionName fr) (c # cs) = Some (sep, tok, rest)" by simp
    then obtain s' where s: "c # cs = FunctionName fr @ sep # s'"
      by (blast dest: tagReferenceAt_SomeD)
    with assms(1) have "hd (FunctionName fr) = c" by (cases "FunctionName fr") auto
    with Some y assms Cons show ?thesis by (simp add: replaceTags_match)
  qed
qed

lemma versionToken_rest:
  assumes "versionToken s = Some (tok, rest)"
  shows "tok = ''unstable'' \<or> rest = [] \<or> \<not> isDigit (hd rest)"
proof (cases "HasPrefix s ''unstable''")
  case True
  with assms show ?thesis by (auto simp: versionToken_def)
next
  case False
  with assms have "\<exists>x. rest = dropWhile isDigit x"
    by (auto simp: versionToken_def Let_def split: if_splits)
  then obtain x where "rest = dropWhile isDigit x" by blast
  then show ?thesis using hd_dropWhile[of isDigit x] by blast
qed

lemma unstableThenDigit_iff:
  "unstableThenDigit fn s \<longleftrightarrow>
     (\<exists>p sep d q. s = p @ fn @ sep # ''unstable'' @ d # q \<and>
        (sep = CHR '':'' \<or> sep = CHR ''/'') \<and> isDigit d)"
  by (rule unstableThenDigit_def)

lemma replaceTags_idem:
  assumes fn: "plainName (FunctionName fr)" and pv: "isFullVersion (LatestPatchVersion fr)"
  shows "\<not> unstableThenDigit (FunctionName fr) s \<Longrightarrow>
    replaceTags fr (replaceTags fr s) = replaceTags fr s"
proof (induction s rule: length_induct)
  case (1 s)
  let ?fn = "FunctionName fr" and ?pv = "LatestPatchVersion fr"
  from fn have sf: "sepfree ?fn" and ne: "?fn \<noteq> []"
    by (auto simp: plainName_sepfree plainName_def)
  show ?case
  proof (cases s)
    case Nil
    then show ?thesis by (simp add: replaceTags_Nil)
  next
    case (Cons c cs)
    have nb_cs: "\<not> unstableThenDigit ?fn cs"
    proof
      assume "unstableThenDigit ?fn cs"
      then obtain p sep d q where "cs = p @ ?fn @ sep # ''unstable'' @ d # q"
        "sep = CHR '':'' \<or> sep = CHR ''/''" "isDigit d"
        unfolding unstableThenDigit_iff by blast
      then have "s = (c # p) @ ?fn @ sep # ''unstable'' @ d # q \<and>
          (sep = CHR '':'' \<or> sep = CHR ''/'') \<and> isDigit d" using Cons by simp
      then have "unstableThenDigit ?fn s" unfolding unstableThenDigit_iff by blast
      with 1 show False by simp
    qed
    show ?thesis
    proof (cases "tagReferenceAt ?fn (c # cs)")
      case None
      then have f: "replaceTags fr (c # cs) = c # replaceTags fr cs" by (rule replaceTags_nomatch)
      have "tagReferenceAt ?fn (c # replaceTags fr cs) = None"
      proof (rule ccontr)
        assume "tagReferenceAt ?fn (c # replaceTags fr cs) \<noteq> None"
        then obtain sep s' where e: "c # replaceTags fr cs = ?fn @ sep # s'"
          and sep: "sep = CHR '':'' \<or> sep = CHR ''/''" and vt: "versionToken s' \<noteq> None"
          unfolding tagReferenceAt_None_iff by blast
        from ne e obtain u where u: "?fn = c # u" and e': "replaceTags fr cs = u @ sep # s'"
          by (cases ?fn) auto
        from sf u have su: "sepfree u" by (simp add: sepfree_def)
        from e' have "HasPrefix (replaceTags fr cs) (u @ [sep])"
          by (metis HasPrefix_appendI append_Cons append_Nil append_assoc)
        from replaceTags_prefix_sep[OF sf sep su this] obtain y where y: "cs = u @ sep # y"
          using HasPrefix_decomp[of cs "u @ [sep]"] by (metis append_Cons append_Nil append_assoc)
        from u have "length u < length ?fn" by simp
        from replaceTags_short[OF sf sep this, of y] e' y have "s' = replaceTags fr y" by simp
        with vt have "versionToken y \<noteq> None" using versionToken_replaceTags[OF sf] by simp
        with y u sep have "\<exists>sep s'. c # cs = ?fn @ sep # s' \<and>
            (sep = CHR '':'' \<or> sep = CHR ''/'') \<and> versionToken s' \<noteq> None"
          by auto
        with None show False unfolding tagReferenceAt_None_iff by blast
      qed
      then have "replaceTags fr (c # replaceTags fr cs) = c # replaceTags fr (replaceTags fr cs)"
        by (rule replaceTags_nomatch)
      moreover from 1 Cons nb_cs have "replaceTags fr (replaceTags fr cs) = replaceTags fr cs"
        by simp
      ultimately show ?thesis using Cons f by simp
    next
      case (Some x)
      obtain sep tok rest where x: "x = (sep, tok, rest)" by (cases x)
      with Some have r: "tagReferenceAt ?fn (c # cs) = Some (sep, tok, rest)" by simp
      then obtain s' where s': "c # cs = ?fn @ sep # s'"
        and sep: "sep = CHR '':'' \<or> sep = CHR ''/''" and vt: "versionToken s' = Some (tok, rest)"
        by (blast dest: tagReferenceAt_SomeD)
      from vt have dec: "s' = tok @ rest" by (rule versionToken_decomp)
      from r have f: "replaceTags fr (c # cs) = ?fn @ sep # ?pv @ replaceTags fr rest"
        by (rule replaceTags_match)
      have nd: "rest = [] \<or> \<not> isDigit (hd rest)"
      proof (cases "tok = ''unstable''")
        case False
        with versionToken_rest[OF vt] show ?thesis by simp
      next
        case True
        show ?thesis
        proof (rule ccontr)
          assume "\<not> (rest = [] \<or> \<not> isDigit (hd rest))"
          then obtain d q where "rest = d # q" "isDigit d" by (cases rest) auto
          with s' dec True Cons sep have "s = [] @ ?fn @ sep # ''unstable'' @ d # q \<and>
              (sep = CHR '':'' \<or> sep = CHR ''/'') \<and> isDigit d" by simp
          then have "unstableThenDigit ?fn s" unfolding unstableThenDigit_iff by blast
          with 1 show False by simp
        qed
      qed
      from replaceTags_hd[OF ne nd] have "versionToken (?pv @ replaceTags fr rest) =
          Some (?pv, replaceTags fr rest)"
        by (intro versionToken_fullVersion pv)
      with sep have "tagReferenceAt ?fn (?fn @ sep # ?pv @ replaceTags fr rest) =
          Some (sep, ?pv, replaceTags fr rest)"
        unfolding tagReferenceAt_iff by blast
      then have ff: "replaceTags fr (?fn @ sep # ?pv @ replaceTags fr rest) =
          ?fn @ sep # ?pv @ replaceTags fr (replaceTags fr rest)"
        by (rule replaceTags_match)
      have len: "length rest < length s" using s' dec Cons by (metis add_Suc_right length_Cons length_append less_add_Suc2 trans_less_add2)
      have nb_rest: "\<not> unstableThenDigit ?fn rest"
      proof
        assume "unstableThenDigit ?fn rest"
        then obtain p a d q where "rest = p @ ?fn @ a # ''unstable'' @ d # q"
          "a = CHR '':'' \<or> a = CHR ''/''" "isDigit d"
          unfolding unstableThenDigit_iff by blast
        then have "s = (?fn @ sep # tok @ p) @ ?fn @ a # ''unstable'' @ d # q \<and>
            (a = CHR '':'' \<or> a = CHR ''/'') \<and> isDigit d" using Cons s' dec by simp
        then have "unstableThenDigit ?fn s" unfolding unstableThenDigit_iff by blast
        with 1 show False by simp
      qed
      from 1 len nb_rest have "replaceTags fr (replaceTags fr rest) = replaceTags fr rest"
        by simp
      with f ff Cons show ?thesis by simp
    qed
  qed
qed

lemma versionToken_unstable: "versionToken (''unstable'' @ rest) = Some (''unstable'', rest)"
  by (simp add: versionToken_def HasPrefix_def)

lemma versionToken_full_digits:
  assumes "list_all isDigit a" "list_all isDigit b" "list_all isDigit c"
    and "x = [] \<or> \<not> isDigit (hd x)"
  shows "versionToken (''v'' @ a @ ''.'' @ b @ ''.'' @ c @ x) =
    Some (''v'' @ a @ ''.'' @ b @ ''.'' @ c, x)"
proof -
  from assms(4) have x: "dropWhile isDigit x = x" "takeWhile isDigit x = []"
    by (cases x; simp)+
  have a: "dropWhile isDigit (a @ CHR ''.'' # y) = CHR ''.'' # y"
    "takeWhile isDigit (a @ CHR ''.'' # y) = a" for y
    using assms(1) not_digit_dot by (simp_all add: dropWhile_all takeWhile_all)
  have b: "dropWhile isDigit (b @ CHR ''.'' # y) = CHR ''.'' # y"
    "takeWhile isDigit (b @ CHR ''.'' # y) = b" for y
    using assms(2) not_digit_dot by (simp_all add: dropWhile_all takeWhile_all)
  have c: "dropWhile isDigit (c @ x) = x" "takeWhile isDigit (c @ x) = c"
    using assms(3) x by (simp_all add: dropWhile_all_end takeWhile_all_end)
  show ?thesis
    unfolding versionToken_def by (simp add: HasPrefix_def a b c)
qed

lemma versionToken_minor_digits:
  assumes "list_all isDigit a" "list_all isDigit b"
    and "x = [] \<or> (\<not> isDigit (hd x) \<and> hd x \<noteq> CHR ''.'')"
  shows "versionToken (''v'' @ a @ ''.'' @ b @ x) = Some (''v'' @ a @ ''.'' @ b, x)"
proof -
  from assms(3) have x: "dropWhile isDigit x = x" "takeWhile isDigit x = []"
    and nd: "\<not> HasPrefix x ''.''"
    by (cases x; simp add: HasPrefix_def)+
  have a: "dropWhile isDigit (a @ CHR ''.'' # y) = CHR ''.'' # y"
    "takeWhile isDigit (a @ CHR ''.'' # y) = a" for y
    using assms(1) not_digit_dot by (simp_all add: dropWhile_all takeWhile_all)
  have b: "dropWhile isDigit (b @ x) = x" "takeWhile isDigit (b @ x) = b"
    using assms(2) x by (simp_all add: dropWhile_all_end takeWhile_all_end)
  show ?thesis
    unfolding versionToken_def using nd by (simp add: HasPrefix_def a b)
qed

lemma versionToken_start:
  "versionToken z \<noteq> None \<Longrightarrow> HasPrefix z ''unstable'' \<or> HasPrefix z ''v''"
  by (auto simp: versionToken_def split: if_splits)

lemma tagReferenceAt_start:
  assumes "tagReferenceAt fn s \<noteq> None"
  shows "HasPrefix s (fn @ '':unstable'') \<or> HasPrefix s (fn @ ''/unstable'') \<or>
         HasPrefix s (fn @ '':v'') \<or> HasPrefix s (fn @ ''/v'')"
proof -
  from assms have "\<not> \<not> (\<exists>sep s'. s = fn @ sep # s' \<and> (sep = CHR '':'' \<or> sep = CHR ''/'') \<and>
      versionToken s' \<noteq> None)"
    unfolding tagReferenceAt_None_iff .
  then obtain sep s' where s: "s = fn @ sep # s'"
    and sep: "sep = CHR '':'' \<or> sep = CHR ''/''" and vt: "versionToken s' \<noteq> None"
    by blast
  from vt have "HasPrefix s' ''unstable'' \<or> HasPrefix s' ''v''" by (rule versionToken_start)
  then have "HasPrefix s (fn @ sep # ''unstable'') \<or> HasPrefix s (fn @ sep # ''v'')"
    unfolding s by (simp add: HasPrefix_append_same HasPrefix_Cons)
  with sep show ?thesis by auto
qed

lemma catalogURLAt_start:
  assumes "catalogURLAt fn s \<noteq> None"
  shows "HasPrefix s (''https://catalog.kpt.dev/'' @ fn @ ''/unstable'') \<or>
         HasPrefix s (''https://catalog.kpt.dev/'' @ fn @ ''/v'')"
proof -
  let ?u = "''https://catalog.kpt.dev/'' @ fn @ ''/''"
  from assms have p: "HasPrefix s ?u" and vt: "versionToken (drop (length ?u) s) \<noteq> None"
    by (auto simp: catalogURLAt_def split: if_splits)
  from p have s: "s = ?u @ drop (length ?u) s" by (rule HasPrefix_decomp)
  from vt have "HasPrefix (drop (length ?u) s) ''unstable'' \<or> HasPrefix (drop (length ?u) s) ''v''"
    by (rule versionToken_start)
  then have "HasPrefix (?u @ drop (length ?u) s) (?u @ ''unstable'') \<or>
             HasPrefix (?u @ drop (length ?u) s) (?u @ ''v'')"
    by (simp only: HasPrefix_append_same)
  with s show ?thesis by simp
qed

lemma catalogURLAt_iff:
  "catalogURLAt fn (''https://catalog.kpt.dev/'' @ fn @ ''/'' @ s') = versionToken s'"
proof -
  let ?u = "''https://catalog.kpt.dev/'' @ fn @ ''/''"
  have "HasPrefix (?u @ s') ?u" using HasPrefix_append_same[of ?u s' "[]"] by simp
  moreover have "drop (length ?u) (?u @ s') = s'" by simp
  ultimately have "catalogURLAt fn (?u @ s') = versionToken s'"
    unfolding catalogURLAt_def by (simp only: if_True)
  then show ?thesis by simp
qed

lemma unstable_reference_Contains:
  assumes "\<exists>p sep d q. s = p @ fn @ sep # ''unstable'' @ d # q \<and>
        (sep = CHR '':'' \<or> sep = CHR ''/'') \<and> isDigit d"
  shows "Contains s ''unstable''"
proof -
  from assms obtain p sep d q where "s = p @ fn @ sep # ''unstable'' @ d # q" by blast
  then have "s = (p @ fn @ [sep]) @ ''unstable'' @ (d # q)" by simp
  then show ?thesis unfolding Contains_iff by blast
qed

text \<open>
  Claim C8, as the program has it. For a release whose function name is a non-empty run of
  letters, digits, underscores and hyphens and whose latest patch version is \<^verbatim>\<open>v\<close>,
  digits, a dot, digits, a dot and digits, and for a content that nowhere has the function
  name, a colon or a slash, \<^verbatim>\<open>unstable\<close> and a digit right after it, the tag rule applied
  twice gives what it gives applied once.
\<close>

theorem C8_tag_rewrite_idempotent:
  assumes "plainName (FunctionName fr)" "isFullVersion (LatestPatchVersion fr)"
    and "\<not> (\<exists>p sep d q. s = p @ FunctionName fr @ sep # ''unstable'' @ d # q \<and>
              (sep = CHR '':'' \<or> sep = CHR ''/'') \<and> isDigit d)"
  shows "replaceTags fr (replaceTags fr s) = replaceTags fr s"
proof -
  from assms(3) have "\<not> unstableThenDigit (FunctionName fr) s"
    unfolding unstableThenDigit_def .
  with assms(1,2) show ?thesis by (rule replaceTags_idem)
qed

theorem C8_tag_rewrite_idempotent_witness:
  "replaceTags (demo_release\<lparr>LatestPatchVersion := ''v1.0.1''\<rparr>)
     (replaceTags (demo_release\<lparr>LatestPatchVersion := ''v1.0.1''\<rparr>) ''apply-setters:v1.0.1'') =
   replaceTags (demo_release\<lparr>LatestPatchVersion := ''v1.0.1''\<rparr>) ''apply-setters:v1.0.1'' \<and>
   replaceTags (demo_release\<lparr>LatestPatchVersion := ''v1.0.1''\<rparr>) ''apply-setters:v1.0.1'' =
     ''apply-setters:v1.0.1''"
proof -
  let ?r = "demo_release\<lparr>LatestPatchVersion := ''v1.0.1''\<rparr>"
  have 1: "plainName (FunctionName ?r)" by code_simp
  have 2: "isFullVersion (LatestPatchVersion ?r)" by code_simp
  have "\<not> Contains ''apply-setters:v1.0.1'' ''unstable''" by code_simp
  then have 3: "\<not> (\<exists>p sep d q.
      ''apply-setters:v1.0.1'' = p @ FunctionName ?r @ sep # ''unstable'' @ d # q \<and>
      (sep = CHR '':'' \<or> sep = CHR ''/'') \<and> isDigit d)"
    using unstable_reference_Contains[of "''apply-setters:v1.0.1''" "FunctionName ?r"] by blast
  have 4: "replaceTags ?r ''apply-setters:v1.0.1'' = ''apply-setters:v1.0.1''" by code_simp
  from C8_tag_rewrite_idempotent[OF 1 2 3] 4 show ?thesis by (rule conjI)
qed

text \<open>
  Against claim C8 as it is worded: after \<^verbatim>\<open>unstable\<close> the digit stays behind the patch
  version, and the second application takes both for one version.
\<close>

theorem C8_counterexample:
  "replaceTags (demo_release\<lparr>LatestPatchVersion := ''v1.0.1''\<rparr>) ''apply-setters:unstable7'' =
     ''apply-setters:v1.0.17'' \<and>
   replaceTags (demo_release\<lparr>LatestPatchVersion := ''v1.0.1''\<rparr>)
     (replaceTags (demo_release\<lparr>LatestPatchVersion := ''v1.0.1''\<rparr>) ''apply-setters:unstable7'') =
     ''apply-setters:v1.0.1''"
  by code_simp

text \<open>
  Claim C5, as the program has it. For a release as above, the tag rule leaves the empty
  content empty; where the content starts with the function name, a colon or a slash and a
  version token, it writes the name, the same separator and the latest patch version, and
  goes on behind the token; where the content starts with none of the function name, a
  separator and \<^verbatim>\<open>unstable\<close> or \<^verbatim>\<open>v\<close>, it copies one character and goes on. The
  version token is \<^verbatim>\<open>unstable\<close>, or \<^verbatim>\<open>v\<close> and three numbers, no digit behind them, or
  \<^verbatim>\<open>v\<close> and two numbers, neither a digit nor a dot behind them.
\<close>

theorem C5_tag_rewrite:
  assumes "plainName (FunctionName fr)" "isFullVersion (LatestPatchVersion fr)"
    and "sep = CHR '':'' \<or> sep = CHR ''/''"
  shows "replaceTags fr [] = [] \<and>
    replaceTags fr (FunctionName fr @ sep # ''unstable'' @ rest) =
      FunctionName fr @ sep # LatestPatchVersion fr @ replaceTags fr rest \<and>
    (a \<noteq> [] \<and> b \<noteq> [] \<and> c \<noteq> [] \<and> list_all isDigit a \<and> list_all isDigit b \<and>
     list_all isDigit c \<and> (rest = [] \<or> \<not> isDigit (hd rest)) \<longrightarrow>
       replaceTags fr (FunctionName fr @ sep # ''v'' @ a @ ''.'' @ b @ ''.'' @ c @ rest) =
         FunctionName fr @ sep # LatestPatchVersion fr @ replaceTags fr rest) \<and>
    (a \<noteq> [] \<and> b \<noteq> [] \<and> list_all isDigit a \<and> list_all isDigit b \<and>
     (rest = [] \<or> (\<not> isDigit (hd rest) \<and> hd rest \<noteq> CHR ''.'')) \<longrightarrow>
       replaceTags fr (FunctionName fr @ sep # ''v'' @ a @ ''.'' @ b @ rest) =
         FunctionName fr @ sep # LatestPatchVersion fr @ replaceTags fr rest) \<and>
    (\<not> HasPrefix (x # s) (FunctionName fr @ '':unstable'') \<and>
     \<not> HasPrefix (x # s) (FunctionName fr @ ''/unstable'') \<and>
     \<not> HasPrefix (x # s) (FunctionName fr @ '':v'') \<and>
     \<not> HasPrefix (x # s) (FunctionName fr @ ''/v'') \<longrightarrow>
       replaceTags fr (x # s) = x # replaceTags fr s)"
proof (intro conjI impI)
  let ?fn = "FunctionName fr" and ?pv = "LatestPatchVersion fr"
  have m: "replaceTags fr (?fn @ sep # z) = ?fn @ sep # ?pv @ replaceTags fr r"
    if "versionToken z = Some (tok, r)" for z tok r
  proof -
    from that assms(3) have "tagReferenceAt ?fn (?fn @ sep # z) = Some (sep, tok, r)"
      unfolding tagReferenceAt_iff by blast
    then show ?thesis by (rule replaceTags_match)
  qed
  show "replaceTags fr [] = []" by (rule replaceTags_Nil)
  show "replaceTags fr (?fn @ sep # ''unstable'' @ rest) = ?fn @ sep # ?pv @ replaceTags fr rest"
    by (rule m) (rule versionToken_unstable)
  {
    assume h: "a \<noteq> [] \<and> b \<noteq> [] \<and> c \<noteq> [] \<and> list_all isDigit a \<and> list_all isDigit b \<and>
      list_all isDigit c \<and> (rest = [] \<or> \<not> isDigit (hd rest))"
    then have "versionToken (''v'' @ a @ ''.'' @ b @ ''.'' @ c @ rest) =
        Some (''v'' @ a @ ''.'' @ b @ ''.'' @ c, rest)"
      by (intro versionToken_full_digits) simp_all
    then show "replaceTags fr (?fn @ sep # ''v'' @ a @ ''.'' @ b @ ''.'' @ c @ rest) =
        ?fn @ sep # ?pv @ replaceTags fr rest"
      by (rule m)
  }
  {
    assume h: "a \<noteq> [] \<and> b \<noteq> [] \<and> list_all isDigit a \<and> list_all isDigit b \<and>
      (rest = [] \<or> (\<not> isDigit (hd rest) \<and> hd rest \<noteq> CHR ''.''))"
    then have "versionToken (''v'' @ a @ ''.'' @ b @ rest) = Some (''v'' @ a @ ''.'' @ b, rest)"
      by (intro versionToken_minor_digits) simp_all
    then show "replaceTags fr (?fn @ sep # ''v'' @ a @ ''.'' @ b @ rest) =
        ?fn @ sep # ?pv @ replaceTags fr rest"
      by (rule m)
  }
  {
    assume h: "\<not> HasPrefix (x # s) (?fn @ '':unstable'') \<and>
      \<not> HasPrefix (x # s) (?fn @ ''/unstable'') \<and>
      \<not> HasPrefix (x # s) (?fn @ '':v'') \<and> \<not> HasPrefix (x # s) (?fn @ ''/v'')"
    then have "tagReferenceAt ?fn (x # s) = None"
      using tagReferenceAt_start[of ?fn "x # s"] by blast
    then show "replaceTags fr (x # s) = x # replaceTags fr s" by (rule replaceTags_nomatch)
  }
qed

theorem C5_tag_rewrite_witness:
  "replaceTags demo_release ''apply-setters/v1.0'' = ''apply-setters/v1.0.3'' \<and>
   replaceTags demo_release ''apply-setters:v1.0'' = ''apply-setters:v1.0.3'' \<and>
   replaceTags demo_release ''apply-setters:unstable'' = ''apply-setters:v1.0.3'' \<and>
   replaceTags demo_release ''apply-setters:v0.1.1'' = ''apply-setters:v1.0.3'' \<and>
   replaceTags demo_release ''x'' = ''x''"
proof -
  have 1: "plainName (FunctionName demo_release)" by code_simp
  have 2: "isFullVersion (LatestPatchVersion demo_release)" by code_simp
  have d: "isDigit CHR ''0''" "isDigit CHR ''1''" by (simp_all add: isDigit_def)
  have p: "\<not> HasPrefix ''x'' (FunctionName demo_release @ '':unstable'')"
    "\<not> HasPrefix ''x'' (FunctionName demo_release @ ''/unstable'')"
    "\<not> HasPrefix ''x'' (FunctionName demo_release @ '':v'')"
    "\<not> HasPrefix ''x'' (FunctionName demo_release @ ''/v'')"
    by code_simp+
  have e: "replaceTags demo_release [] = []" by (rule replaceTags_Nil)
  show ?thesis
    using C5_tag_rewrite[OF 1 2, of "CHR ''/''" "[]" "''1''" "''0''" "''0''" "CHR ''x''" "[]"]
      C5_tag_rewrite[OF 1 2, of "CHR '':''" "[]" "''0''" "''1''" "''1''" "CHR ''x''" "[]"]
      C5_tag_rewrite[OF 1 2, of "CHR '':''" "[]" "''1''" "''0''" "''0''" "CHR ''x''" "[]"]
      d p e
    by (simp add: demo_release_def)
qed

text \<open>
  Against claim C5 as it is worded: behind \<^verbatim>\<open>v1.0\<close> the dot that ends the sentence is
  replaced together with the version token.
\<close>

theorem C5_counterexample:
  "replaceTags demo_release ''see apply-setters:v1.0.'' = ''see apply-setters:v1.0.3''"
  by code_simp

text \<open>
  Claim C6, as the program has it. For a release whose function name is as above and whose
  minor version is \<^verbatim>\<open>v\<close>, digits, a dot and digits, the catalog rule leaves the empty
  content empty; where the content starts with \<^verbatim>\<open>https://catalog.kpt.dev/\<close>, the function
  name, a slash and a version token, it writes the same URL with the minor version of the
  release in place of the token, and goes on behind the token; where the content starts
  with none of that URL and \<^verbatim>\<open>unstable\<close> or \<^verbatim>\<open>v\<close>, it copies one character and goes
  on. The version token is as in claim C5.
\<close>

theorem C6_catalog_url_rewrite:
  assumes "plainName (FunctionName fr)" "isMinorVersion (MinorVersion fr)"
  shows "replaceURLs fr [] = [] \<and>
    replaceURLs fr (''https://catalog.kpt.dev/'' @ FunctionName fr @ ''/'' @ ''unstable'' @ rest) =
      ''https://catalog.kpt.dev/'' @ FunctionName fr @ ''/'' @ MinorVersion fr @
        replaceURLs fr rest \<and>
    (a \<noteq> [] \<and> b \<noteq> [] \<and> c \<noteq> [] \<and> list_all isDigit a \<and> list_all isDigit b \<and>
     list_all isDigit c \<and> (rest = [] \<or> \<not> isDigit (hd rest)) \<longrightarrow>
       replaceURLs fr (''https://catalog.kpt.dev/'' @ FunctionName fr @ ''/'' @
                       ''v'' @ a @ ''.'' @ b @ ''.'' @ c @ rest) =
         ''https://catalog.kpt.dev/'' @ FunctionName fr @ ''/'' @ MinorVersion fr @
           replaceURLs fr rest) \<and>
    (a \<noteq> [] \<and> b \<noteq> [] \<and> list_all isDigit a \<and> list_all isDigit b \<and>
     (rest = [] \<or> (\<not> isDigit (hd rest) \<and> hd rest \<noteq> CHR ''.'')) \<longrightarrow>
       replaceURLs fr (''https://catalog.kpt.dev/'' @ FunctionName fr @ ''/'' @
                       ''v'' @ a @ ''.'' @ b @ rest) =
         ''https://catalog.kpt.dev/'' @ FunctionName fr @ ''/'' @ MinorVersion fr @
           replaceURLs fr rest) \<and>
    (\<not> HasPrefix (x # s) (''https://catalog.kpt.dev/'' @ FunctionName fr @ ''/unstable'') \<and>
     \<not> HasPrefix (x # s) (''https://catalog.kpt.dev/'' @ FunctionName fr @ ''/v'') \<longrightarrow>
       replaceURLs fr (x # s) = x # replaceURLs fr s)"
proof (intro conjI impI)
  let ?fn = "FunctionName fr" and ?mv = "MinorVersion fr"
  let ?u = "''https://catalog.kpt.dev/'' @ ?fn @ ''/''"
  have m: "replaceURLs fr (''https://catalog.kpt.dev/'' @ ?fn @ ''/'' @ z) =
      ''https://catalog.kpt.dev/'' @ ?fn @ ''/'' @ ?mv @ replaceURLs fr r"
    if "versionToken z = Some (tok, r)" for z tok r
  proof -
    from that have "catalogURLAt ?fn (''https://catalog.kpt.dev/'' @ ?fn @ ''/'' @ z) = Some (tok, r)"
      by (simp only: catalogURLAt_iff)
    then show ?thesis by (rule replaceURLs_match)
  qed
  show "replaceURLs fr [] = []" by (rule replaceURLs_Nil)
  show "replaceURLs fr (''https://catalog.kpt.dev/'' @ ?fn @ ''/'' @ ''unstable'' @ rest) =
      ''https://catalog.kpt.dev/'' @ ?fn @ ''/'' @ ?mv @ replaceURLs fr rest"
    by (rule m) (rule versionToken_unstable)
  {
    assume h: "a \<noteq> [] \<and> b \<noteq> [] \<and> c \<noteq> [] \<and> list_all isDigit a \<and> list_all isDigit b \<and>
      list_all isDigit c \<and> (rest = [] \<or> \<not> isDigit (hd rest))"
    then have "versionToken (''v'' @ a @ ''.'' @ b @ ''.'' @ c @ rest) =
        Some (''v'' @ a @ ''.'' @ b @ ''.'' @ c, rest)"
      by (intro versionToken_full_digits) simp_all
    then show "replaceURLs fr (''https://catalog.kpt.dev/'' @ ?fn @ ''/'' @
                       ''v'' @ a @ ''.'' @ b @ ''.'' @ c @ rest) =
        ''https://catalog.kpt.dev/'' @ ?fn @ ''/'' @ ?mv @ replaceURLs fr rest"
      by (rule m)
  }
  {
    assume h: "a \<noteq> [] \<and> b \<noteq> [] \<and> list_all isDigit a \<and> list_all isDigit b \<and>
      (rest = [] \<or> (\<not> isDigit (hd rest) \<and> hd rest \<noteq> CHR ''.''))"
    then have "versionToken (''v'' @ a @ ''.'' @ b @ rest) = Some (''v'' @ a @ ''.'' @ b, rest)"
      by (intro versionToken_minor_digits) simp_all
    then show "replaceURLs fr (''https://catalog.kpt.dev/'' @ ?fn @ ''/'' @
                       ''v'' @ a @ ''.'' @ b @ rest) =
        ''https://catalog.kpt.dev/'' @ ?fn @ ''/'' @ ?mv @ replaceURLs fr rest"
      by (rule m)
  }
  {
    assume h: "\<not> HasPrefix (x # s) (''https://catalog.kpt.dev/'' @ ?fn @ ''/unstable'') \<and>
      \<not> HasPrefix (x # s) (''https://catalog.kpt.dev/'' @ ?fn @ ''/v'')"
    then have "catalogURLAt ?fn (x # s) = None"
      using catalogURLAt_start[of ?fn "x # s"] by blast
    then show "replaceURLs fr (x # s) = x # replaceURLs fr s" by (rule replaceURLs_nomatch)
  }
qed

theorem C6_catalog_url_rewrite_witness:
  "replaceURLs (demo_release\<lparr>LatestPatchVersion := ''v1.0.5''\<rparr>)
     ''https://catalog.kpt.dev/apply-setters/v1.0.1'' =
   ''https://catalog.kpt.dev/apply-setters/v1.0''"
proof -
  let ?r = "demo_release\<lparr>LatestPatchVersion := ''v1.0.5''\<rparr>"
  have 1: "plainName (FunctionName ?r)" by code_simp
  have 2: "isMinorVersion (MinorVersion ?r)" by code_simp
  have d: "isDigit CHR ''0''" "isDigit CHR ''1''" by (simp_all add: isDigit_def)
  have p: "\<not> HasPrefix ''x'' (''https://catalog.kpt.dev/'' @ FunctionName ?r @ ''/unstable'')"
    "\<not> HasPrefix ''x'' (''https://catalog.kpt.dev/'' @ FunctionName ?r @ ''/v'')"
    by code_simp+
  show ?thesis
    using C6_catalog_url_rewrite[OF 1 2, of "[]" "''1''" "''0''" "''1''" "CHR ''x''" "[]"] d p
    by (simp add: demo_release_def)
qed

text \<open>
  Against claim C6 as it is worded: behind \<^verbatim>\<open>v1.0\<close> the dot that ends the sentence is
  replaced together with the version token.
\<close>

theorem C6_counterexample:
  "replaceURLs (demo_release\<lparr>LatestPatchVersion := ''v1.0.5''\<rparr>)
     ''see https://catalog.kpt.dev/apply-setters/v1.0.'' =
   ''see https://catalog.kpt.dev/apply-setters/v1.0''"
  by code_simp

section \<open>The example rule and the end of the content\<close>























text \<open>
  Claim C7 against the program. With the example of the sample release the suffix is put
  behind the example name and in front of the line break. For a release without examples
  the names are joined into the empty alternation, which matches the empty name: the
  suffix is put behind \<^verbatim>\<open>examples/\<close> wherever whitespace follows, though no example name
  stands there.
\<close>

theorem C7_empty_example_set:
  "replaceKptPackages (demo_release\<lparr>LatestPatchVersion := ''v1.0.1''\<rparr>)
     ''https://github.com/GoogleContainerTools/kpt-functions-catalog.git/examples/apply-setters-simple\<newline>'' =
     ''https://github.com/GoogleContainerTools/kpt-functions-catalog.git/examples/apply-setters-simple@apply-setters/v1.0.1\<newline>'' \<and>
   replaceKptPackages (demo_release\<lparr>LatestPatchVersion := ''v1.0.1'', Examples := []\<rparr>)
     ''see https://github.com/GoogleContainerTools/kpt-functions-catalog.git/examples/ for more'' =
     ''see https://github.com/GoogleContainerTools/kpt-functions-catalog.git/examples/@apply-setters/v1.0.1 for more''"
  by code_simp

end
